theory Spec2Isabelle
  imports Main "HOL-Library.Monad_Syntax" "HOL-Library.Multiset"
begin

section \<open>Go slices and the deque record\<close>

text \<open>
  The Go struct is \<^verbatim>\<open>type Deque[T any] struct { head int; buf []T }\<close> (and the same
  for \<^verbatim>\<open>vecdeque.DQ\<close>). A slice header is a pointer, a length and a capacity; the
  deque only ever reslices \<^verbatim>\<open>buf\<close> from its first slot, so the slice is modelled by
  its backing array from that slot to its capacity (\<open>arr\<close>, so that
  \<^verbatim>\<open>cap(q.buf)\<close> is \<open>length (arr q)\<close>) and its length (\<open>len\<close>).

  \<open>head\<close>, \<open>len\<close> and the capacity are natural numbers: the code never stores a
  negative value in them. User-supplied integers (the index of \<^verbatim>\<open>At\<close>, the argument of
  \<^verbatim>\<open>Grow\<close>) are \<open>int\<close>. A run-time panic (a failed bounds check or an explicit
  \<^verbatim>\<open>panic\<close>) is the value \<open>None\<close>.

  Go's \<^verbatim>\<open>int\<close> has 64 bits. The sums the code forms are below twice the capacity, except
  \<^verbatim>\<open>head + i\<close> in the unchecked \<^verbatim>\<open>Get(i)\<close>, where a sum that wraps around is negative and
  panics, as the unbounded sum (which is then at least twice the capacity) does here.
\<close>

record 'a deque =
  head :: nat
  arr :: "'a list"
  len :: nat

definition cap :: "'a deque \<Rightarrow> nat" where
  "cap q = length (arr q)"

text \<open>
  The representation invariant: Go guarantees \<^verbatim>\<open>len(buf) <= cap(buf)\<close>, and the
  operations keep \<open>head\<close> inside the buffer (or at 0 for an empty buffer). The
  constructors establish it and every operation keeps it (lemmas \<open>valid_constructors\<close>,
  \<open>Grow_ok\<close>, \<open>PushFront_spec\<close>, \<open>PushBack_spec\<close>, \<open>PopFront_spec\<close>, \<open>PopBack_spec\<close>). On a
  deque that satisfies it, every subtraction of the code has a non-negative result, so
  the subtraction of \<open>nat\<close> is the code's.
\<close>

definition valid :: "'a deque \<Rightarrow> bool" where
  "valid q \<longleftrightarrow> len q \<le> cap q \<and> (head q < cap q \<or> (head q = 0 \<and> cap q = 0))"

text \<open>\<^verbatim>\<open>s[k]\<close> on a slice of length \<open>length a\<close>: panics outside \<open>[0, length a)\<close>.\<close>

definition index :: "'a list \<Rightarrow> int \<Rightarrow> 'a option" where
  "index a k = (if 0 \<le> k \<and> k < int (length a) then Some (a ! nat k) else None)"

text \<open>\<^verbatim>\<open>s[lo:hi]\<close> read as a value, for a slice whose capacity is \<open>length xs\<close>.\<close>

definition subslice :: "'a list \<Rightarrow> nat \<Rightarrow> nat \<Rightarrow> 'a list option" where
  "subslice xs lo hi =
     (if lo \<le> hi \<and> hi \<le> length xs then Some (take (hi - lo) (drop lo xs)) else None)"

text \<open>
  \<^verbatim>\<open>copy(a[lo:hi], src)\<close>: the bounds check of the slice expression, then
  \<open>min (hi - lo) (length src)\<close> elements are written from slot \<open>lo\<close> on. The source is
  read before anything is written (Go's copy is a memmove).
\<close>

definition go_copy :: "'a list \<Rightarrow> nat \<Rightarrow> nat \<Rightarrow> 'a list \<Rightarrow> 'a list option" where
  "go_copy a lo hi src =
     (if lo \<le> hi \<and> hi \<le> length a
      then Some (take lo a @ take (hi - lo) src @ drop (lo + min (hi - lo) (length src)) a)
      else None)"

text \<open>\<^verbatim>\<open>q.buf = q.buf[:k]\<close>: panics when \<open>k\<close> exceeds the capacity.\<close>

definition reslice :: "'a deque \<Rightarrow> nat \<Rightarrow> 'a deque option" where
  "reslice q k = (if k \<le> cap q then Some (q\<lparr>len := k\<rparr>) else None)"

text \<open>
  \<^verbatim>\<open>append(s[:cap(s)], make([]T, n)...)\<close> for \<open>n > 0\<close>: the slice is full, so the
  runtime allocates a new array, copies the old one and zeroes the rest. The new
  capacity is chosen by the runtime; it is at least the new length. The choice is the
  parameter \<open>slack\<close>: the number of slots allocated beyond the \<open>n\<close> requested, as a
  function of the old capacity and \<open>n\<close>. Go's zero value of \<open>T\<close> is written \<open>0\<close>.
\<close>

type_synonym policy = "nat \<Rightarrow> nat \<Rightarrow> nat"

definition append_zeros :: "policy \<Rightarrow> 'a::zero list \<Rightarrow> nat \<Rightarrow> 'a list" where
  "append_zeros slack a n = a @ replicate (n + slack (length a) n) 0"

text \<open>
  \<^verbatim>\<open>slices.Grow(s, n)\<close> of the standard library, which panics for negative \<open>n\<close> and
  otherwise is \<^verbatim>\<open>if n -= cap(s) - len(s); n > 0 { s = append(s[:cap(s)], make([]E, n)...)[:len(s)] }\<close>.
  The result is the new backing array; the length is unchanged.
\<close>

definition slices_Grow :: "policy \<Rightarrow> 'a::zero list \<Rightarrow> nat \<Rightarrow> int \<Rightarrow> 'a list option" where
  "slices_Grow slack a l n =
     (if n < 0 then None
      else let n' = n - (int (length a) - int l)
           in if n' > 0 then Some (append_zeros slack a (nat n')) else Some a)"

section \<open>deque.Deque\<close>

definition wrapAdd :: "'a deque \<Rightarrow> int \<Rightarrow> int \<Rightarrow> int" where
  "wrapAdd q i addend =
     (let i' = i + addend in if i' \<ge> int (cap q) then i' - int (cap q) else i')"

definition toPhysicalIdx :: "'a deque \<Rightarrow> int \<Rightarrow> int" where
  "toPhysicalIdx q i = wrapAdd q (int (head q)) i"

definition At :: "'a deque \<Rightarrow> int \<Rightarrow> 'a option" where
  "At q i =
     (if \<not> (0 \<le> i \<and> i < int (len q)) then None
      else index (arr q) (toPhysicalIdx q i))"

definition Cap :: "'a deque \<Rightarrow> int" where
  "Cap q = int (cap q)"

definition Len :: "'a deque \<Rightarrow> int" where
  "Len q = int (len q)"

text \<open>The results are the pair \<^verbatim>\<open>(T, bool)\<close> and the deque after the call.\<close>

definition PopFront :: "'a::zero deque \<Rightarrow> (('a \<times> bool) \<times> 'a deque) option" where
  "PopFront q =
     (if len q = 0 then Some ((0, False), q)
      else do {
        let oldHead = head q;
        let q = q\<lparr>head := nat (toPhysicalIdx q 1)\<rparr>;
        q \<leftarrow> reslice q (len q - 1);
        v \<leftarrow> index (arr q) (int oldHead);
        Some ((v, True), q)
      })"

definition PopBack :: "'a::zero deque \<Rightarrow> (('a \<times> bool) \<times> 'a deque) option" where
  "PopBack q =
     (if len q = 0 then Some ((0, False), q)
      else do {
        q \<leftarrow> reslice q (len q - 1);
        v \<leftarrow> index (arr q) (toPhysicalIdx q (int (len q)));
        Some ((v, True), q)
      })"

definition Grow :: "policy \<Rightarrow> int \<Rightarrow> 'a::zero deque \<Rightarrow> 'a deque option" where
  "Grow slack n q =
     (if n \<le> int (cap q) - int (len q) then Some q
      else do {
        let oldCap = cap q;
        a \<leftarrow> slices_Grow slack (arr q) (len q) n;
        let q = q\<lparr>arr := a\<rparr>;
        let newCap = cap q;
        if head q \<le> oldCap - len q then Some q
        else do {
          let headLen = oldCap - head q;
          let tailLen = len q - headLen;
          if headLen > tailLen \<and> newCap - oldCap \<ge> tailLen then do {
            src \<leftarrow> subslice (arr q) 0 tailLen;
            a \<leftarrow> go_copy (arr q) oldCap (oldCap + tailLen) src;
            Some (q\<lparr>arr := a\<rparr>)
          } else do {
            let newHead = newCap - headLen;
            src \<leftarrow> subslice (arr q) (head q) (head q + headLen);
            a \<leftarrow> go_copy (arr q) newHead (newHead + headLen) src;
            Some (q\<lparr>arr := a, head := newHead\<rparr>)
          }
        }
      })"

text \<open>
  \<^verbatim>\<open>Grow\<close> again, returning also the number of elements its \<^verbatim>\<open>copy\<close> call moves (the
  value Go's \<^verbatim>\<open>copy\<close> returns, the smaller of the two slice lengths; 0 on the paths
  without a copy). Lemma \<open>Grow_counted_fst\<close> shows that the deque is the one of \<open>Grow\<close>.
\<close>

definition Grow_counted :: "policy \<Rightarrow> int \<Rightarrow> 'a::zero deque \<Rightarrow> ('a deque \<times> nat) option" where
  "Grow_counted slack n q =
     (if n \<le> int (cap q) - int (len q) then Some (q, 0)
      else do {
        let oldCap = cap q;
        a \<leftarrow> slices_Grow slack (arr q) (len q) n;
        let q = q\<lparr>arr := a\<rparr>;
        let newCap = cap q;
        if head q \<le> oldCap - len q then Some (q, 0)
        else do {
          let headLen = oldCap - head q;
          let tailLen = len q - headLen;
          if headLen > tailLen \<and> newCap - oldCap \<ge> tailLen then do {
            src \<leftarrow> subslice (arr q) 0 tailLen;
            a \<leftarrow> go_copy (arr q) oldCap (oldCap + tailLen) src;
            Some (q\<lparr>arr := a\<rparr>, min (oldCap + tailLen - oldCap) (length src))
          } else do {
            let newHead = newCap - headLen;
            src \<leftarrow> subslice (arr q) (head q) (head q + headLen);
            a \<leftarrow> go_copy (arr q) newHead (newHead + headLen) src;
            Some (q\<lparr>arr := a, head := newHead\<rparr>, min (newHead + headLen - newHead) (length src))
          }
        }
      })"

definition PushFront :: "policy \<Rightarrow> 'a::zero list \<Rightarrow> 'a deque \<Rightarrow> 'a deque option" where
  "PushFront slack values q =
     do {
       q \<leftarrow> Grow slack (int (length values)) q;
       q \<leftarrow> reslice q (len q + length values);
       if head q \<ge> length values then do {
         let newHead = head q - length values;
         a \<leftarrow> go_copy (arr q) newHead (head q) values;
         Some (q\<lparr>arr := a, head := newHead\<rparr>)
       } else do {
         let tailLen = length values - head q;
         v1 \<leftarrow> subslice values tailLen (length values);
         a \<leftarrow> go_copy (arr q) 0 (head q) v1;
         v2 \<leftarrow> subslice values 0 tailLen;
         a \<leftarrow> go_copy a (cap q - tailLen) (cap q) v2;
         Some (q\<lparr>arr := a, head := cap q - tailLen\<rparr>)
       }
     }"

definition PushBack :: "policy \<Rightarrow> 'a::zero list \<Rightarrow> 'a deque \<Rightarrow> 'a deque option" where
  "PushBack slack values q =
     do {
       q \<leftarrow> Grow slack (int (length values)) q;
       let endIdx = nat (wrapAdd q (int (head q)) (int (len q)));
       a \<leftarrow> (if length values \<le> cap q - endIdx
             then go_copy (arr q) endIdx (endIdx + length values) values
             else do {
               let headLen = cap q - endIdx;
               v1 \<leftarrow> subslice values 0 headLen;
               a \<leftarrow> go_copy (arr q) endIdx (cap q) v1;
               v2 \<leftarrow> subslice values headLen (length values);
               go_copy a 0 (length values - headLen) v2
             });
       reslice (q\<lparr>arr := a\<rparr>) (len q + length values)
     }"

definition Reset :: "'a deque \<Rightarrow> 'a deque option" where
  "Reset q = reslice q 0"

text \<open>
  \<^verbatim>\<open>WithCapacity(cap)\<close> is \<^verbatim>\<open>make([]T, 0, cap)\<close>; \<^verbatim>\<open>From(slice)\<close> adopts a slice, here one
  whose capacity equals its length (a slice literal, or \<^verbatim>\<open>nil\<close> for the empty list);
  \<open>new_deque\<close> is the zero value \<^verbatim>\<open>new(Deque[T])\<close>.
\<close>

definition WithCapacity :: "nat \<Rightarrow> 'a::zero deque" where
  "WithCapacity c = \<lparr>head = 0, arr = replicate c 0, len = 0\<rparr>"

definition From :: "'a list \<Rightarrow> 'a deque" where
  "From slice = \<lparr>head = 0, arr = slice, len = length slice\<rparr>"

definition new_deque :: "'a deque" where
  "new_deque = \<lparr>head = 0, arr = [], len = 0\<rparr>"

text \<open>
  The logical contents as a caller observes them: the sequence
  \<^verbatim>\<open>At(0), At(1), ..., At(Len()-1)\<close>.
\<close>

definition contents :: "'a deque \<Rightarrow> 'a option list" where
  "contents q = map (\<lambda>i. At q (int i)) [0..<len q]"

subsection \<open>Iterators\<close>

text \<open>
  A Go iterator \<^verbatim>\<open>iter.Seq[T]\<close> is a function that takes the loop body
  \<^verbatim>\<open>yield func(T) bool\<close>. The body is a closure of the consumer; it is modelled as a
  function from the element and the consumer's state to the continue flag and the new
  state. The consumer does not touch the deque while it iterates (the documentation
  of \<^verbatim>\<open>PopAll\<close> forbids it).

  \<^verbatim>\<open>PopAll\<close> runs \<^verbatim>\<open>n := len(q.buf); q.buf = q.buf[:0]\<close> when it is called and returns
  the closure: the model returns the deque after the call and the captured \<open>n\<close>.
  \<open>PopAll_seq q n\<close> is the returned closure \<^verbatim>\<open>for i := range n { if !yield(...) { return } }\<close>,
  with \<open>i\<close> the loop variable and \<open>r\<close> the number of iterations left.
\<close>

type_synonym ('a, 's) yield = "'a \<Rightarrow> 's \<Rightarrow> bool \<times> 's"

definition PopAll :: "'a deque \<Rightarrow> ('a deque \<times> nat) option" where
  "PopAll q = do { let n = len q; q \<leftarrow> reslice q 0; Some (q, n) }"

fun PopAll_loop :: "'a deque \<Rightarrow> nat \<Rightarrow> nat \<Rightarrow> ('a, 's) yield \<Rightarrow> 's \<Rightarrow> 's option" where
  "PopAll_loop q i 0 yield s = Some s"
| "PopAll_loop q i (Suc r) yield s =
     do {
       v \<leftarrow> index (arr q) (toPhysicalIdx q (int i));
       let (continue, s) = yield v s;
       if \<not> continue then Some s else PopAll_loop q (i + 1) r yield s
     }"

definition PopAll_seq :: "'a deque \<Rightarrow> nat \<Rightarrow> ('a, 's) yield \<Rightarrow> 's \<Rightarrow> 's option" where
  "PopAll_seq q n yield s = PopAll_loop q 0 n yield s"

text \<open>
  Two consumers: \<open>collect_all\<close> is \<^verbatim>\<open>for x := range seq { got = append(got, x) }\<close>;
  \<open>collect_first k\<close> breaks out of the loop once it holds \<open>k\<close> elements,
  \<^verbatim>\<open>for x := range seq { got = append(got, x); if len(got) >= k { break } }\<close>.
\<close>

definition collect_all :: "('a, 'a list) yield" where
  "collect_all x got = (True, got @ [x])"

definition collect_first :: "nat \<Rightarrow> ('a, 'a list) yield" where
  "collect_first k x got = (\<not> length (got @ [x]) \<ge> k, got @ [x])"

section \<open>vecdeque.DQ\<close>

text \<open>
  The earlier package has the same struct; \<^verbatim>\<open>wrapAdd\<close>, \<^verbatim>\<open>toPhysicalIdx\<close>, \<^verbatim>\<open>Cap\<close> and
  \<^verbatim>\<open>Len\<close> are the same text as in \<^verbatim>\<open>deque.Deque\<close> and are shared.
\<close>

definition DQ_Get :: "'a deque \<Rightarrow> int \<Rightarrow> 'a option" where
  "DQ_Get q i = index (arr q) (toPhysicalIdx q i)"

definition DQ_PopFront :: "'a::zero deque \<Rightarrow> (('a \<times> bool) \<times> 'a deque) option" where
  "DQ_PopFront q =
     (if len q = 0 then Some ((0, False), q)
      else do {
        let oldHead = head q;
        let q = q\<lparr>head := nat (toPhysicalIdx q 1)\<rparr>;
        q \<leftarrow> reslice q (len q - 1);
        v \<leftarrow> index (arr q) (int oldHead);
        Some ((v, True), q)
      })"

definition DQ_PopBack :: "'a::zero deque \<Rightarrow> (('a \<times> bool) \<times> 'a deque) option" where
  "DQ_PopBack q =
     (if len q = 0 then Some ((0, False), q)
      else do {
        q \<leftarrow> reslice q (len q - 1);
        v \<leftarrow> DQ_Get q (int (len q));
        Some ((v, True), q)
      })"

definition DQ_Grow :: "policy \<Rightarrow> int \<Rightarrow> 'a::zero deque \<Rightarrow> 'a deque option" where
  "DQ_Grow slack n q =
     (let n = n - (int (cap q) - int (len q)) in
      if n \<le> 0 then Some q
      else do {
        let oldCap = cap q;
        let q = q\<lparr>arr := append_zeros slack (arr q) (nat n)\<rparr>;
        let newCap = cap q;
        if head q \<le> oldCap - len q then Some q
        else do {
          let headLen = oldCap - head q;
          let tailLen = len q - headLen;
          if headLen > tailLen \<and> newCap - oldCap \<ge> tailLen then do {
            src \<leftarrow> subslice (arr q) 0 tailLen;
            a \<leftarrow> go_copy (arr q) oldCap (oldCap + tailLen) src;
            Some (q\<lparr>arr := a\<rparr>)
          } else do {
            let newHead = newCap - headLen;
            src \<leftarrow> subslice (arr q) (head q) (head q + headLen);
            a \<leftarrow> go_copy (arr q) newHead (newHead + headLen) src;
            Some (q\<lparr>arr := a, head := newHead\<rparr>)
          }
        }
      })"

definition DQ_PushFront :: "policy \<Rightarrow> 'a::zero list \<Rightarrow> 'a deque \<Rightarrow> 'a deque option" where
  "DQ_PushFront slack values q =
     do {
       q \<leftarrow> DQ_Grow slack (int (length values)) q;
       q \<leftarrow> reslice q (len q + length values);
       if head q \<ge> length values then do {
         let newHead = head q - length values;
         a \<leftarrow> go_copy (arr q) newHead (head q) values;
         Some (q\<lparr>arr := a, head := newHead\<rparr>)
       } else do {
         let tailLen = length values - head q;
         v1 \<leftarrow> subslice values tailLen (length values);
         a \<leftarrow> go_copy (arr q) 0 (head q) v1;
         v2 \<leftarrow> subslice values 0 tailLen;
         a \<leftarrow> go_copy a (cap q - tailLen) (cap q) v2;
         Some (q\<lparr>arr := a, head := cap q - tailLen\<rparr>)
       }
     }"

definition DQ_PushBack :: "policy \<Rightarrow> 'a::zero list \<Rightarrow> 'a deque \<Rightarrow> 'a deque option" where
  "DQ_PushBack slack values q =
     do {
       q \<leftarrow> DQ_Grow slack (int (length values)) q;
       let endIdx = nat (wrapAdd q (int (head q)) (int (len q)));
       a \<leftarrow> (if length values < cap q - endIdx
             then go_copy (arr q) endIdx (endIdx + length values) values
             else do {
               let headLen = cap q - endIdx;
               v1 \<leftarrow> subslice values 0 headLen;
               a \<leftarrow> go_copy (arr q) endIdx (cap q) v1;
               v2 \<leftarrow> subslice values headLen (length values);
               go_copy a 0 (length values - headLen) v2
             });
       reslice (q\<lparr>arr := a\<rparr>) (len q + length values)
     }"

text \<open>
  \<^verbatim>\<open>PopAll\<close> of this package does nothing when called; the closure it returns pops
  \<^verbatim>\<open>for val, ok := q.PopFront(); ok; val, ok = q.PopFront() { if !yield(val) { return } }\<close>.
  The result is the deque and the consumer's state when the loop is left.
\<close>

function DQ_PopAll_seq ::
  "'a::zero deque \<Rightarrow> ('a, 's) yield \<Rightarrow> 's \<Rightarrow> ('a deque \<times> 's) option" where
  "DQ_PopAll_seq q yield s =
     (case DQ_PopFront q of
        None \<Rightarrow> None
      | Some ((val, ok), q') \<Rightarrow>
          if \<not> ok then Some (q', s)
          else (case yield val s of
                  (continue, s') \<Rightarrow>
                    if \<not> continue then Some (q', s') else DQ_PopAll_seq q' yield s'))"
  by pat_completeness auto
termination
  by (relation "measure (\<lambda>(q, yield, s). len q)")
     (auto simp: DQ_PopFront_def reslice_def Let_def split: if_splits Option.bind_splits)

text \<open>\<open>k\<close> calls of \<^verbatim>\<open>PopFront\<close> in a row, their results dropped.\<close>

fun DQ_PopFront_times :: "nat \<Rightarrow> 'a::zero deque \<Rightarrow> 'a deque option" where
  "DQ_PopFront_times 0 q = Some q"
| "DQ_PopFront_times (Suc k) q = do { (_, q) \<leftarrow> DQ_PopFront q; DQ_PopFront_times k q }"

definition DQ_contents :: "'a deque \<Rightarrow> 'a option list" where
  "DQ_contents q = map (\<lambda>i. DQ_Get q (int i)) [0..<len q]"

section \<open>Running the two deques side by side\<close>

text \<open>
  The four operations claim C10 compares, as data; a step applies one to a deque and
  returns what the call returns (the pair \<^verbatim>\<open>(T, bool)\<close> of a pop, nothing for a push) and
  the deque after it; a run applies a list of them in order and collects the results.
\<close>

datatype 'a op = OpPushBack "'a list" | OpPushFront "'a list" | OpPopFront | OpPopBack

fun Deque_step ::
  "policy \<Rightarrow> 'a::zero op \<Rightarrow> 'a deque \<Rightarrow> (('a \<times> bool) option \<times> 'a deque) option" where
  "Deque_step slack (OpPushBack vs) q = map_option (Pair None) (PushBack slack vs q)"
| "Deque_step slack (OpPushFront vs) q = map_option (Pair None) (PushFront slack vs q)"
| "Deque_step slack OpPopFront q = map_option (\<lambda>(r, q). (Some r, q)) (PopFront q)"
| "Deque_step slack OpPopBack q = map_option (\<lambda>(r, q). (Some r, q)) (PopBack q)"

fun DQ_step ::
  "policy \<Rightarrow> 'a::zero op \<Rightarrow> 'a deque \<Rightarrow> (('a \<times> bool) option \<times> 'a deque) option" where
  "DQ_step slack (OpPushBack vs) q = map_option (Pair None) (DQ_PushBack slack vs q)"
| "DQ_step slack (OpPushFront vs) q = map_option (Pair None) (DQ_PushFront slack vs q)"
| "DQ_step slack OpPopFront q = map_option (\<lambda>(r, q). (Some r, q)) (DQ_PopFront q)"
| "DQ_step slack OpPopBack q = map_option (\<lambda>(r, q). (Some r, q)) (DQ_PopBack q)"

fun Deque_run ::
  "policy \<Rightarrow> 'a::zero op list \<Rightarrow> 'a deque \<Rightarrow> (('a \<times> bool) option list \<times> 'a deque) option" where
  "Deque_run slack [] q = Some ([], q)"
| "Deque_run slack (x # xs) q =
     do { (r, q) \<leftarrow> Deque_step slack x q; (rs, q) \<leftarrow> Deque_run slack xs q; Some (r # rs, q) }"

fun DQ_run ::
  "policy \<Rightarrow> 'a::zero op list \<Rightarrow> 'a deque \<Rightarrow> (('a \<times> bool) option list \<times> 'a deque) option" where
  "DQ_run slack [] q = Some ([], q)"
| "DQ_run slack (x # xs) q =
     do { (r, q) \<leftarrow> DQ_step slack x q; (rs, q) \<leftarrow> DQ_run slack xs q; Some (r # rs, q) }"

section \<open>heap.Heap\<close>

text \<open>
  \<^verbatim>\<open>type Heap[T any] struct { buf []T; compare func(T, T) int }\<close>. The heap only
  appends to \<^verbatim>\<open>buf\<close> and truncates it, so the slice is the list of its elements.
  Every index the code reads or writes is below \<^verbatim>\<open>len(h.buf)\<close>: \<^verbatim>\<open>up\<close> is called on the
  slot just appended and moves to parents, \<^verbatim>\<open>down\<close> tests \<^verbatim>\<open>j1\<close> and \<^verbatim>\<open>j2\<close> against the length
  before it reads them. Go's \<^verbatim>\<open>(j - 1) / 2\<close> truncates towards zero, so it is 0 for
  \<open>j = 0\<close>, as the subtraction and division of \<open>nat\<close> are. The test \<^verbatim>\<open>j1 < 0\<close> of \<^verbatim>\<open>down\<close>
  catches a 64-bit overflow of \<^verbatim>\<open>2*i + 1\<close>, which no index of a slice reaches.
\<close>

record 'a heap =
  buf :: "'a list"
  compare :: "'a \<Rightarrow> 'a \<Rightarrow> int"

definition New :: "('a \<Rightarrow> 'a \<Rightarrow> int) \<Rightarrow> 'a heap" where
  "New cmp = \<lparr>buf = [], compare = cmp\<rparr>"

definition heap_Len :: "'a heap \<Rightarrow> int" where
  "heap_Len h = int (length (buf h))"

text \<open>The loop of \<^verbatim>\<open>up\<close>: the heap and \<open>j\<close> when the loop is left.\<close>

function up_loop :: "'a heap \<Rightarrow> 'a \<Rightarrow> nat \<Rightarrow> 'a heap \<times> nat" where
  "up_loop h x j =
     (let i = (j - 1) div 2 in
      if i = j \<or> compare h x (buf h ! i) \<ge> 0 then (h, j)
      else up_loop (h\<lparr>buf := (buf h)[j := buf h ! i]\<rparr>) x i)"
  by pat_completeness auto
termination
  by (relation "measure (\<lambda>(h, x, j). j)") auto

definition up :: "'a heap \<Rightarrow> nat \<Rightarrow> 'a heap" where
  "up h j =
     (let x = buf h ! j;
          (h, j) = up_loop h x j
      in h\<lparr>buf := (buf h)[j := x]\<rparr>)"

text \<open>The loop of \<^verbatim>\<open>down\<close>: the heap and \<open>i\<close> when the loop is left.\<close>

function down_loop :: "'a heap \<Rightarrow> 'a \<Rightarrow> nat \<Rightarrow> 'a heap \<times> nat" where
  "down_loop h x i =
     (let j1 = 2 * i + 1 in
      if j1 \<ge> length (buf h) then (h, i)
      else let j2 = j1 + 1;
               j = (if j2 < length (buf h) \<and> compare h (buf h ! j2) (buf h ! j1) < 0
                    then j2 else j1)
           in if compare h x (buf h ! j) \<le> 0 then (h, i)
              else down_loop (h\<lparr>buf := (buf h)[i := buf h ! j]\<rparr>) x j)"
  by pat_completeness auto
termination
  by (relation "measure (\<lambda>(h, x, i). length (buf h) - i)") (auto split: if_splits)

definition down :: "'a heap \<Rightarrow> nat \<Rightarrow> 'a \<Rightarrow> 'a heap" where
  "down h i x =
     (let (h, i) = down_loop h x i
      in h\<lparr>buf := (buf h)[i := x]\<rparr>)"

definition Push :: "'a heap \<Rightarrow> 'a \<Rightarrow> 'a heap" where
  "Push h x =
     (let n = length (buf h);
          h = h\<lparr>buf := buf h @ [x]\<rparr>
      in up h n)"

definition Pop :: "'a::zero heap \<Rightarrow> ('a \<times> bool) \<times> 'a heap" where
  "Pop h =
     (if length (buf h) = 0 then ((0, False), h)
      else let x = buf h ! 0;
               last = buf h ! (length (buf h) - 1);
               h = h\<lparr>buf := take (length (buf h) - 1) (buf h)\<rparr>;
               h = (if length (buf h) > 0 then down h 0 last else h)
           in ((x, True), h))"

text \<open>\<^verbatim>\<open>cmp.Compare[int]\<close> of the standard library, the comparator of the package's tests.\<close>

definition cmp_int :: "int \<Rightarrow> int \<Rightarrow> int" where
  "cmp_int x y = (if x < y then - 1 else if x > y then 1 else 0)"

text \<open>
  The contract of a comparator, as far as the heap relies on it: \<open>cmp a b \<le> 0\<close> exactly when
  \<open>cmp b a \<ge> 0\<close>, and \<open>\<le> 0\<close> is transitive. Every total order satisfies it (and so does a
  comparison by a key, as in the package's examples).
\<close>

definition total_preorder :: "('a \<Rightarrow> 'a \<Rightarrow> int) \<Rightarrow> bool" where
  "total_preorder cmp \<longleftrightarrow>
     (\<forall>a b. (cmp a b \<le> 0) = (0 \<le> cmp b a)) \<and>
     (\<forall>a b c. cmp a b \<le> 0 \<and> cmp b c \<le> 0 \<longrightarrow> cmp a c \<le> 0)"

text \<open>
  The min-heap invariant of the spec: every non-root position \<open>k\<close> compares \<open>\<ge> 0\<close> with its
  parent \<open>(k - 1) / 2\<close>.
\<close>

definition heap_on :: "('a \<Rightarrow> 'a \<Rightarrow> int) \<Rightarrow> 'a list \<Rightarrow> bool" where
  "heap_on cmp b \<longleftrightarrow> (\<forall>k\<in>{1..<length b}. 0 \<le> cmp (b ! k) (b ! ((k - 1) div 2)))"

definition heap_inv :: "'a heap \<Rightarrow> bool" where
  "heap_inv h \<longleftrightarrow> heap_on (compare h) (buf h)"

text \<open>
  Sequences of heap calls: a list of \<^verbatim>\<open>Push\<close> and \<^verbatim>\<open>Pop\<close> calls run in order (results
  dropped), a list of values pushed in order, and \<open>k\<close> calls of \<^verbatim>\<open>Pop\<close> with their results.
\<close>

datatype 'a heap_op = HPush 'a | HPop

fun heap_step :: "'a::zero heap_op \<Rightarrow> 'a heap \<Rightarrow> 'a heap" where
  "heap_step (HPush x) h = Push h x"
| "heap_step HPop h = snd (Pop h)"

fun heap_run :: "'a::zero heap_op list \<Rightarrow> 'a heap \<Rightarrow> 'a heap" where
  "heap_run [] h = h"
| "heap_run (x # xs) h = heap_run xs (heap_step x h)"

fun Push_all :: "'a list \<Rightarrow> 'a heap \<Rightarrow> 'a heap" where
  "Push_all [] h = h"
| "Push_all (x # xs) h = Push_all xs (Push h x)"

fun Pop_n :: "nat \<Rightarrow> 'a::zero heap \<Rightarrow> ('a \<times> bool) list \<times> 'a heap" where
  "Pop_n 0 h = ([], h)"
| "Pop_n (Suc k) h =
     (let (r, h) = Pop h;
          (rs, h) = Pop_n k h
      in (r # rs, h))"

text \<open>The equations of the two loops are unfolded by hand in the proofs.\<close>

declare up_loop.simps [simp del] down_loop.simps [simp del]

text \<open>
  For a list of heap calls run on a heap of \<open>c\<close> elements: whether every \<^verbatim>\<open>Pop\<close> finds the
  heap non-empty, and the numbers of \<^verbatim>\<open>Push\<close> and of \<^verbatim>\<open>Pop\<close> calls.
\<close>

fun pops_succeed :: "'a heap_op list \<Rightarrow> nat \<Rightarrow> bool" where
  "pops_succeed [] c = True"
| "pops_succeed (HPush x # xs) c = pops_succeed xs (c + 1)"
| "pops_succeed (HPop # xs) c = (0 < c \<and> pops_succeed xs (c - 1))"

fun pushes :: "'a heap_op list \<Rightarrow> nat" where
  "pushes [] = 0"
| "pushes (HPush x # xs) = pushes xs + 1"
| "pushes (HPop # xs) = pushes xs"

fun pops :: "'a heap_op list \<Rightarrow> nat" where
  "pops [] = 0"
| "pops (HPush x # xs) = pops xs"
| "pops (HPop # xs) = pops xs + 1"

section \<open>Auxiliary notions for the proofs\<close>

text \<open>The physical slot of logical index \<open>i\<close>, and the elements read slot by slot.\<close>

definition phys :: "'a deque \<Rightarrow> nat \<Rightarrow> nat" where
  "phys q i = nat (toPhysicalIdx q (int i))"

definition elems :: "'a deque \<Rightarrow> 'a list" where
  "elems q = map (\<lambda>i. arr q ! phys q i) [0..<len q]"

text \<open>
  The loop invariants of \<^verbatim>\<open>up\<close> and \<^verbatim>\<open>down\<close>. In both loops one slot is a hole whose
  content is stale and \<open>x\<close> is the value still to be placed. In \<^verbatim>\<open>up\<close> every pair but the
  hole's own is in order, \<open>x\<close> is at most the hole's content, and the hole's children are
  at least the hole's parent. In \<^verbatim>\<open>down\<close> the buffer with the stale content is a heap and
  \<open>x\<close> is at least the hole's parent.
\<close>

definition up_inv :: "('a \<Rightarrow> 'a \<Rightarrow> int) \<Rightarrow> 'a list \<Rightarrow> nat \<Rightarrow> 'a \<Rightarrow> bool" where
  "up_inv cmp b j x \<longleftrightarrow>
     j < length b \<and>
     (\<forall>k\<in>{1..<length b}. k \<noteq> j \<longrightarrow> 0 \<le> cmp (b ! k) (b ! ((k - 1) div 2))) \<and>
     0 \<le> cmp (b ! j) x \<and>
     (\<forall>k\<in>{1..<length b}. (k - 1) div 2 = j \<and> 1 \<le> j \<longrightarrow> 0 \<le> cmp (b ! k) (b ! ((j - 1) div 2)))"

definition down_inv :: "('a \<Rightarrow> 'a \<Rightarrow> int) \<Rightarrow> 'a list \<Rightarrow> nat \<Rightarrow> 'a \<Rightarrow> bool" where
  "down_inv cmp b i x \<longleftrightarrow>
     i < length b \<and> heap_on cmp b \<and> (1 \<le> i \<longrightarrow> 0 \<le> cmp x (b ! ((i - 1) div 2)))"

section \<open>Allocation policies\<close>

text \<open>
  Three policies for the examples. \<open>exact_fit\<close> allocates no slot beyond the request.
  \<open>doubling\<close> doubles the capacity, or allocates the request when that is more: the
  rule of Go's runtime for slices under 256 elements. \<open>quarter_growth\<close> is its rule for
  256 elements or more: the new capacity is the old one plus a quarter of (the old one
  plus 768). The runtime then rounds the capacity up to an allocation size, which is
  left out here.
\<close>

definition exact_fit :: policy where
  "exact_fit c n = 0"

definition doubling :: policy where
  "doubling c n = c - n"

definition quarter_growth :: policy where
  "quarter_growth c n = (c + 768) div 4 - n"

section \<open>Slices and physical indices\<close>

lemma phys_eq: "phys q i = (if cap q \<le> head q + i then head q + i - cap q else head q + i)"
  by (auto simp: phys_def toPhysicalIdx_def wrapAdd_def Let_def nat_diff_distrib')

lemma phys_less: "valid q \<Longrightarrow> i < len q \<Longrightarrow> phys q i < cap q"
  by (auto simp: phys_eq valid_def)

lemma toPhysicalIdx_phys: "toPhysicalIdx q (int i) = int (phys q i)"
  by (auto simp: phys_def toPhysicalIdx_def wrapAdd_def Let_def)

lemma At_phys: "valid q \<Longrightarrow> i < len q \<Longrightarrow> At q (int i) = Some (arr q ! phys q i)"
  using phys_less [of q i] by (simp add: At_def index_def toPhysicalIdx_phys cap_def)

lemma contents_elems: "valid q \<Longrightarrow> contents q = map Some (elems q)"
  by (simp add: contents_def elems_def At_phys)

lemma length_elems [simp]: "length (elems q) = len q"
  by (simp add: elems_def)

lemma elems_eqI:
  assumes "len q = length xs" and "\<And>i. i < length xs \<Longrightarrow> arr q ! phys q i = xs ! i"
  shows "elems q = xs"
  using assms by (intro nth_equalityI) (simp_all add: elems_def)

lemma go_copy_SomeI: "lo \<le> hi \<Longrightarrow> hi \<le> length a \<Longrightarrow> \<exists>a'. go_copy a lo hi src = Some a'"
  by (simp add: go_copy_def)

lemma go_copy_length: "go_copy a lo hi src = Some a' \<Longrightarrow> length a' = length a"
  by (auto simp: go_copy_def split: if_splits)

lemma go_copy_nth:
  assumes "go_copy a lo hi src = Some a'" and "k < length a"
  shows "a' ! k = (if lo \<le> k \<and> k < lo + min (hi - lo) (length src) then src ! (k - lo) else a ! k)"
proof -
  from assms(1) have b: "lo \<le> hi" "hi \<le> length a"
    and a': "a' = take lo a @ take (hi - lo) src @ drop (lo + min (hi - lo) (length src)) a"
    by (auto simp: go_copy_def split: if_splits)
  define w where "w = min (hi - lo) (length src)"
  have w: "w \<le> hi - lo" "w \<le> length src" by (simp_all add: w_def)
  have a'': "a' = take lo a @ take w src @ drop (lo + w) a"
    by (simp add: a' w_def min_def)
  have l1: "length (take lo a) = lo" using b by simp
  have l2: "length (take w src) = w" using w by simp
  consider "k < lo" | "lo \<le> k" "k < lo + w" | "lo + w \<le> k" by linarith
  then show ?thesis
  proof cases
    case 1
    then show ?thesis using b by (simp add: a'' nth_append)
  next
    case 2
    then have kw: "k - lo < w" by linarith
    have "a' ! k = (take w src @ drop (lo + w) a) ! (k - lo)"
      unfolding a'' using l1 2 by (simp add: nth_append)
    also have "\<dots> = take w src ! (k - lo)"
      using kw l2 by (simp add: nth_append)
    finally show ?thesis using 2 kw by (simp add: w_def[symmetric])
  next
    case 3
    then have "a' ! k = (take w src @ drop (lo + w) a) ! (k - lo)"
      unfolding a'' using l1 by (simp add: nth_append)
    also have "\<dots> = drop (lo + w) a ! (k - lo - w)"
    proof -
      have "\<not> k - lo < w" using 3 by linarith
      then show ?thesis using l2 by (simp add: nth_append)
    qed
    also have "\<dots> = a ! k"
    proof -
      have "lo + w + (k - lo - w) = k" using 3 by linarith
      then show ?thesis using assms(2) by simp
    qed
    finally show ?thesis using 3 by (simp add: w_def[symmetric])
  qed
qed

lemma subslice_SomeI: "lo \<le> hi \<Longrightarrow> hi \<le> length xs \<Longrightarrow> subslice xs lo hi = Some (take (hi - lo) (drop lo xs))"
  by (simp add: subslice_def)

lemma subslice_length: "subslice xs lo hi = Some ys \<Longrightarrow> length ys = hi - lo"
  by (auto simp: subslice_def split: if_splits)

lemma subslice_nth: "subslice xs lo hi = Some ys \<Longrightarrow> k < hi - lo \<Longrightarrow> ys ! k = xs ! (lo + k)"
  by (auto simp: subslice_def split: if_splits)


lemma valid_constructors:
  "valid (WithCapacity c)" "valid (From slice)" "valid new_deque"
  by (auto simp: valid_def cap_def WithCapacity_def From_def new_deque_def)

lemma valid_cases:
  assumes "valid q"
  obtains "len q \<le> cap q" "head q < cap q" | "len q = 0" "head q = 0" "cap q = 0"
  using assms by (auto simp: valid_def)

lemma Grow_noop: "n \<le> int (cap q) - int (len q) \<Longrightarrow> Grow slack n q = Some q"
  by (simp add: Grow_def)

lemma Grow_spec:
  assumes v: "valid q" and n: "int (cap q) - int (len q) < n"
  shows "\<exists>q'. Grow slack n q = Some q' \<and> valid q' \<and> len q' = len q
           \<and> n \<le> int (cap q') - int (len q') \<and> elems q' = elems q"
proof -
  define c l h where "c = cap q" and "l = len q" and "h = head q"
  define m where "m = nat (n - (int c - int l))"
  define e where "e = m + slack c m"
  define a1 where "a1 = append_zeros slack (arr q) m"
  have lc: "l \<le> c" and hc: "h < c \<or> (h = 0 \<and> c = 0)"
    using v by (auto simp: valid_def c_def l_def h_def)
  have m: "0 < m" "int m = n - (int c - int l)" using n lc by (auto simp: m_def c_def l_def)
  have sg: "slices_Grow slack (arr q) (len q) n = Some a1"
    using n lc m by (auto simp: slices_Grow_def Let_def a1_def m_def c_def l_def cap_def)
  have la1: "length a1 = c + e" by (simp add: a1_def append_zeros_def e_def c_def cap_def)
  have a1_old: "k < c \<Longrightarrow> a1 ! k = arr q ! k" for k
    by (simp add: a1_def append_zeros_def nth_append c_def cap_def)
  have em: "m \<le> e" by (simp add: e_def)
  have room: "n \<le> int (c + e) - int l" using m em by linarith
  show ?thesis
  proof (cases "h \<le> c - l")
    case True
    let ?q' = "q\<lparr>arr := a1\<rparr>"
    have g: "Grow slack n q = Some ?q'"
      using n True sg by (simp add: Grow_def Let_def c_def l_def h_def)
    have "valid ?q'" using lc hc m em by (auto simp: valid_def cap_def la1 l_def[symmetric] h_def[symmetric])
    moreover have "elems ?q' = elems q"
    proof (rule elems_eqI)
      show "len ?q' = length (elems q)" by simp
      fix i assume "i < length (elems q)"
      then have i: "i < l" by (simp add: l_def)
      with True lc have "h + i < c" by linarith
      then show "arr ?q' ! phys ?q' i = elems q ! i"
        using i a1_old [of "h + i"]
        by (simp add: elems_def phys_eq cap_def la1 l_def[symmetric] h_def[symmetric] c_def[symmetric, unfolded cap_def])
    qed
    ultimately show ?thesis using g room by (simp add: cap_def la1 l_def)
  next
    case False
    then have hl: "c < h + l" by linarith
    with lc hc have hc': "h < c" by linarith
    define headLen where "headLen = c - h"
    define tailLen where "tailLen = l - headLen"
    have hT: "headLen + tailLen = l" "0 < tailLen" "headLen + h = c" "tailLen \<le> h"
      using hl lc hc' by (simp_all add: headLen_def tailLen_def)
    let ?q1 = "q\<lparr>arr := a1\<rparr>"
    have q_old: "i < l \<Longrightarrow> arr q ! phys q i = (if i < headLen then a1 ! (h + i) else a1 ! (i - headLen))" for i
      using hT a1_old [of "h + i"] a1_old [of "i - headLen"]
      by (auto simp: phys_eq c_def[symmetric] h_def[symmetric])
    show ?thesis
    proof (cases "headLen > tailLen \<and> e \<ge> tailLen")
      case True
      have s: "subslice a1 0 tailLen = Some (take tailLen a1)"
        using subslice_SomeI [of 0 tailLen a1] hT True by (simp add: la1)
      obtain a2 where a2: "go_copy a1 c (c + tailLen) (take tailLen a1) = Some a2"
        using go_copy_SomeI [of c "c + tailLen" a1] True by (auto simp: la1)
      let ?q' = "q\<lparr>arr := a2\<rparr>"
      have g: "Grow slack n q = Some ?q'"
        using n False True sg s a2
        by (simp add: Grow_def Let_def c_def[symmetric] l_def[symmetric] h_def[symmetric]
            cap_def la1 headLen_def[symmetric] tailLen_def[symmetric]
            c_def[symmetric, unfolded cap_def])
      have la2: "length a2 = c + e" using go_copy_length [OF a2] la1 by simp
      have "valid ?q'" using lc hc' by (simp add: valid_def cap_def la2 l_def[symmetric] h_def[symmetric])
      moreover have "elems ?q' = elems q"
      proof (rule elems_eqI)
        show "len ?q' = length (elems q)" by simp
        fix i assume "i < length (elems q)"
        then have i: "i < l" by (simp add: l_def)
        have p: "phys ?q' i = h + i"
          using i hT True by (simp add: phys_eq cap_def la2 h_def[symmetric])
        have "a2 ! (h + i) = (if i < headLen then a1 ! (h + i) else a1 ! (i - headLen))"
        proof (cases "i < headLen")
          case True
          then show ?thesis using go_copy_nth [OF a2, of "h + i"] hT by (simp add: la1)
        next
          case False
          then have "h + i - c = i - headLen" "c \<le> h + i" "h + i < c + tailLen" "i - headLen < tailLen"
            using hT i by linarith+
          then show ?thesis using go_copy_nth [OF a2, of "h + i"] hT True False
            by (simp add: la1)
        qed
        then show "arr ?q' ! phys ?q' i = elems q ! i"
          using i q_old [of i] by (simp add: p elems_def l_def[symmetric])
      qed
      ultimately show ?thesis using g room by (simp add: cap_def la2 l_def)
    next
      case False
      note notB = this
      have s: "subslice a1 h (h + headLen) = Some (take headLen (drop h a1))"
        using subslice_SomeI [of h "h + headLen" a1] hT by (simp add: la1)
      obtain a2 where a2: "go_copy a1 (h + e) (h + e + headLen) (take headLen (drop h a1)) = Some a2"
        using go_copy_SomeI [of "h + e" "h + e + headLen" a1] hT by (auto simp: la1)
      let ?q' = "q\<lparr>arr := a2, head := h + e\<rparr>"
      have nh: "c + e - headLen = h + e" using hT by linarith
      have nb: "(tailLen < headLen \<and> tailLen \<le> e) = False" using notB by simp
      have g: "Grow slack n q = Some ?q'"
        using n \<open>\<not> h \<le> c - l\<close> sg s a2
        by (simp add: Grow_def Let_def c_def[symmetric] l_def[symmetric] h_def[symmetric]
            cap_def la1 headLen_def[symmetric] tailLen_def[symmetric] nh nb
            c_def[symmetric, unfolded cap_def])
      have la2: "length a2 = c + e" using go_copy_length [OF a2] la1 by simp
      have "valid ?q'" using lc hc' by (simp add: valid_def cap_def la2 l_def[symmetric])
      moreover have "elems ?q' = elems q"
      proof (rule elems_eqI)
        show "len ?q' = length (elems q)" by simp
        fix i assume "i < length (elems q)"
        then have i: "i < l" by (simp add: l_def)
        have p: "phys ?q' i = (if i < headLen then h + e + i else i - headLen)"
          using i hT by (auto simp: phys_eq cap_def la2)
        have "a2 ! phys ?q' i = (if i < headLen then a1 ! (h + i) else a1 ! (i - headLen))"
        proof (cases "i < headLen")
          case True
          then have "h + e + i - (h + e) = i" "h + e + i < c + e" using hT by linarith+
          then show ?thesis using go_copy_nth [OF a2, of "h + e + i"] hT True
            by (simp add: la1 p)
        next
          case False
          then have "i - headLen < h + e" "i - headLen < c + e" using hT i by linarith+
          then show ?thesis using go_copy_nth [OF a2, of "i - headLen"] hT False
            by (simp add: la1 p)
        qed
        then show "arr ?q' ! phys ?q' i = elems q ! i"
          using i q_old [of i] by (simp add: elems_def l_def[symmetric])
      qed
      ultimately show ?thesis using g room by (simp add: cap_def la2 l_def)
    qed
  qed
qed

lemma DQ_Grow_eq: "len q \<le> cap q \<Longrightarrow> DQ_Grow slack n q = Grow slack n q"
  by (auto simp: DQ_Grow_def Grow_def slices_Grow_def Let_def cap_def)

lemmas deque_eval = From_def PopFront_def PopBack_def PushFront_def PushBack_def Grow_def
  slices_Grow_def append_zeros_def reslice_def go_copy_def subslice_def index_def
  toPhysicalIdx_def wrapAdd_def cap_def Cap_def Len_def contents_def At_def Let_def
  exact_fit_def doubling_def

lemma DQ_Get_At: "0 \<le> i \<Longrightarrow> i < int (len q) \<Longrightarrow> DQ_Get q i = At q i"
  by (simp add: DQ_Get_def At_def)

lemma DQ_contents_eq: "DQ_contents q = contents q"
  by (simp add: DQ_contents_def contents_def DQ_Get_At)

lemma phys_mod:
  assumes "valid q" and "i < len q"
  shows "phys q i = (head q + i) mod cap q"
proof (cases "cap q \<le> head q + i")
  case True
  with assms have "head q + i - cap q < cap q" by (auto simp: valid_def)
  then have "(head q + i - cap q) mod cap q = head q + i - cap q" by simp
  with True show ?thesis by (simp add: phys_eq le_mod_geq)
next
  case False
  then show ?thesis by (simp add: phys_eq)
qed

lemmas heap_eval = New_def Push_def Pop_def up_def down_def up_loop.simps down_loop.simps Let_def heap_Len_def

lemma go_copy_nth_exact:
  assumes "go_copy a lo hi src = Some a'" and "length src = hi - lo" and "k < length a"
  shows "a' ! k = (if lo \<le> k \<and> k < hi then src ! (k - lo) else a ! k)"
proof -
  from assms(1) have "lo \<le> hi" by (auto simp: go_copy_def split: if_splits)
  then have "lo + min (hi - lo) (length src) = hi" using assms(2) by simp
  then show ?thesis using go_copy_nth [OF assms(1,3)] by simp
qed

lemma Grow_counted_fst: "map_option fst (Grow_counted slack n q) = Grow slack n q"
  unfolding Grow_counted_def Grow_def Let_def
  by (simp add: map_option_bind comp_def if_distrib [of "map_option fst"] cong: if_cong)

lemma Grow_counted_cases:
  assumes v: "valid q" and n: "int (cap q) - int (len q) < n"
  defines "headLen \<equiv> cap q - head q"
  defines "tailLen \<equiv> len q - (cap q - head q)"
  shows "\<exists>q'. Grow_counted slack n q =
           Some (q', if head q \<le> cap q - len q then 0
                     else if headLen > tailLen \<and> cap q' - cap q \<ge> tailLen then tailLen
                     else headLen)"
proof -
  define c l h where "c = cap q" and "l = len q" and "h = head q"
  define m where "m = nat (n - (int c - int l))"
  define e where "e = m + slack c m"
  define a1 where "a1 = append_zeros slack (arr q) m"
  have lc: "l \<le> c" and hc: "h < c \<or> (h = 0 \<and> c = 0)"
    using v by (auto simp: valid_def c_def l_def h_def)
  have sg: "slices_Grow slack (arr q) (len q) n = Some a1"
    using n lc by (auto simp: slices_Grow_def Let_def a1_def m_def c_def l_def cap_def)
  have la1: "length a1 = c + e" by (simp add: a1_def append_zeros_def e_def c_def cap_def)
  show ?thesis
    using n lc hc sg la1
    by (auto simp: Grow_counted_def Let_def subslice_def go_copy_def cap_def headLen_def tailLen_def
        c_def[symmetric, unfolded cap_def] l_def[symmetric] h_def[symmetric])
qed

lemma Grow_ok:
  assumes "valid q"
  shows "\<exists>q1. Grow slack n q = Some q1 \<and> valid q1 \<and> len q1 = len q \<and> elems q1 = elems q \<and>
           n \<le> int (cap q1) - int (len q1) \<and> (n \<le> int (cap q) - int (len q) \<longrightarrow> q1 = q)"
proof (cases "n \<le> int (cap q) - int (len q)")
  case True
  then show ?thesis using assms by (simp add: Grow_noop)
next
  case False
  then show ?thesis using Grow_spec [of q n slack] assms by auto
qed

lemma PushFront_spec:
  assumes v: "valid q"
  shows "\<exists>q'. PushFront slack vs q = Some q' \<and> valid q' \<and> elems q' = vs @ elems q \<and>
           (int (length vs) \<le> int (cap q) - int (len q) \<longrightarrow> cap q' = cap q)"
proof -
  obtain q1 where g: "Grow slack (int (length vs)) q = Some q1" and v1: "valid q1"
    and l1: "len q1 = len q" and e1: "elems q1 = elems q"
    and room: "int (length vs) \<le> int (cap q1) - int (len q1)"
    and same: "int (length vs) \<le> int (cap q) - int (len q) \<longrightarrow> q1 = q"
    using Grow_ok [OF v, of slack "int (length vs)"] by blast
  define c l h k a where "c = cap q1" and "l = len q1" and "h = head q1" and "k = length vs"
    and "a = arr q1"
  have la: "length a = c" by (simp add: a_def c_def cap_def)
  have lc: "l + k \<le> c" using room v1 by (simp add: valid_def c_def l_def k_def)
  have hc: "h < c \<or> (h = 0 \<and> c = 0)" using v1 by (simp add: valid_def c_def h_def)
  have rs: "reslice q1 (len q1 + length vs) = Some (q1\<lparr>len := l + k\<rparr>)"
    using lc by (simp add: reslice_def c_def l_def k_def)
  have old: "j < l \<Longrightarrow> elems q ! j = a ! (if c \<le> h + j then h + j - c else h + j)" for j
    unfolding e1[symmetric] by (simp add: elems_def phys_eq c_def l_def h_def a_def)
  show ?thesis
  proof (cases "k \<le> h")
    case True
    have hle: "h \<le> c" using hc by linarith
    obtain a2 where a2: "go_copy a (h - k) h vs = Some a2"
      using go_copy_SomeI [of "h - k" h a vs] hle by (auto simp: la)
    let ?q' = "q1\<lparr>len := l + k, arr := a2, head := h - k\<rparr>"
    have pf: "PushFront slack vs q = Some ?q'"
      using g rs True a2
      by (simp add: PushFront_def Let_def k_def[symmetric] h_def[symmetric] a_def[symmetric])
    have la2: "length a2 = c" using go_copy_length [OF a2] la by simp
    have "valid ?q'" using lc hc by (auto simp: valid_def cap_def la2)
    moreover have "elems ?q' = vs @ elems q"
    proof (rule elems_eqI)
      show "len ?q' = length (vs @ elems q)" by (simp add: l_def l1 k_def)
      fix i assume "i < length (vs @ elems q)"
      then have i: "i < k + l" by (simp add: l_def l1 k_def)
      then have hc': "h < c" using lc hc by linarith
      have p: "phys ?q' i = (if c \<le> h - k + i then h - k + i - c else h - k + i)"
        by (simp add: phys_eq cap_def la2)
      show "arr ?q' ! phys ?q' i = (vs @ elems q) ! i"
      proof (cases "i < k")
        case True
        then have "h - k + i < c" "h - k \<le> h - k + i" "h - k + i < h" "h - k + i - (h - k) = i"
          using \<open>k \<le> h\<close> hc' by linarith+
        then show ?thesis using go_copy_nth_exact [OF a2, of "h - k + i"] True \<open>k \<le> h\<close>
          by (simp add: p la nth_append k_def[symmetric])
      next
        case False
        define j where "j = i - k"
        have j: "j < l" "i = k + j" using False i by (simp_all add: j_def)
        have hj: "h - k + i = h + j" using j \<open>k \<le> h\<close> by linarith
        define s where "s = (if c \<le> h + j then h + j - c else h + j)"
        have sc: "s < c" and ns: "(h - k \<le> s \<and> s < h) = False"
          using j lc hc' \<open>k \<le> h\<close> by (auto simp: s_def split: if_splits)
        have "a2 ! s = a ! s" using go_copy_nth_exact [OF a2, of s] sc \<open>k \<le> h\<close>
          by (simp add: la k_def[symmetric] ns)
        moreover have "phys ?q' i = s" by (simp add: p hj s_def)
        moreover have "elems q ! j = a ! s" using old [of j] j by (simp add: s_def)
        ultimately show ?thesis using j False
          by (simp add: nth_append k_def[symmetric])
      qed
    qed
    ultimately show ?thesis using pf same by (auto simp: cap_def la2 c_def)
  next
    case False
    define t where "t = k - h"
    have t: "0 < t" "t + h = k" "t \<le> c" "h + t \<le> c" using False lc by (simp_all add: t_def)
    have s1: "subslice vs t (length vs) = Some (take (k - t) (drop t vs))"
      using subslice_SomeI [of t "length vs" vs] t by (simp add: k_def)
    have s2: "subslice vs 0 t = Some (take t vs)"
      using subslice_SomeI [of 0 t vs] t by (simp add: k_def)
    obtain a2 where a2: "go_copy a 0 h (take (k - t) (drop t vs)) = Some a2"
      using go_copy_SomeI [of 0 h a] t by (auto simp: la)
    have la2: "length a2 = c" using go_copy_length [OF a2] la by simp
    obtain a3 where a3: "go_copy a2 (c - t) c (take t vs) = Some a3"
      using go_copy_SomeI [of "c - t" c a2] by (auto simp: la2)
    have la3: "length a3 = c" using go_copy_length [OF a3] la2 by simp
    let ?q' = "q1\<lparr>len := l + k, arr := a3, head := c - t\<rparr>"
    have nk: "\<not> length vs \<le> h" using False by (simp add: k_def)
    have pf: "PushFront slack vs q = Some ?q'"
      using g rs nk a2 a3 s1 s2
      by (simp add: PushFront_def Let_def cap_def k_def[symmetric] h_def[symmetric] a_def[symmetric]
          t_def[symmetric] la c_def[symmetric, unfolded cap_def])
    have "valid ?q'" using lc t by (simp add: valid_def cap_def la3)
    moreover have "elems ?q' = vs @ elems q"
    proof (rule elems_eqI)
      show "len ?q' = length (vs @ elems q)" by (simp add: l_def l1 k_def)
      fix i assume "i < length (vs @ elems q)"
      then have i: "i < k + l" by (simp add: l_def l1 k_def)
      have p: "phys ?q' i = (if i < t then c - t + i else i - t)"
        using t by (auto simp: phys_eq cap_def la3)
      have slot: "s < c \<Longrightarrow> a3 ! s = (if c - t \<le> s then vs ! (s - (c - t))
                                     else if s < h then vs ! (t + s) else a ! s)" for s
        using go_copy_nth_exact [OF a3, of s] go_copy_nth_exact [OF a2, of s] t
        by (auto simp: la la2 k_def[symmetric])
      show "arr ?q' ! phys ?q' i = (vs @ elems q) ! i"
      proof (cases "i < t")
        case True
        then have "c - t + i < c" "c - t \<le> c - t + i" "c - t + i - (c - t) = i" "i < k"
          using t by linarith+
        then show ?thesis using slot [of "c - t + i"] True
          by (simp add: p nth_append k_def[symmetric])
      next
        case False
        note it = this
        show ?thesis
        proof (cases "i < k")
          case True
          then have "i - t < c" "\<not> c - t \<le> i - t" "i - t < h" "t + (i - t) = i"
            using t it by linarith+
          then show ?thesis using slot [of "i - t"] True it
            by (simp add: p nth_append k_def[symmetric])
        next
          case False
          define j where "j = i - k"
          have j: "j < l" "i = k + j" using False i by (simp_all add: j_def)
          have f: "i - t = h + j" "h + j < c" "\<not> c - t \<le> h + j" "\<not> h + j < h"
            using j t lc by linarith+
          have ph: "phys ?q' i = h + j" using p it f by simp
          have "a3 ! (h + j) = a ! (h + j)" using slot [of "h + j"] f by simp
          also have "\<dots> = elems q ! j" using old [of j] j f by simp
          also have "\<dots> = (vs @ elems q) ! i" using j by (simp add: nth_append k_def)
          finally show ?thesis by (simp add: ph)
        qed
      qed
    qed
    ultimately show ?thesis using pf same by (auto simp: cap_def la3 c_def)
  qed
qed

lemma endIdx_phys: "nat (wrapAdd q (int (head q)) (int (len q))) = phys q (len q)"
  by (simp add: phys_def toPhysicalIdx_def)

lemma PushBack_spec:
  assumes v: "valid q"
  shows "\<exists>q'. PushBack slack vs q = Some q' \<and> valid q' \<and> elems q' = elems q @ vs \<and>
           (int (length vs) \<le> int (cap q) - int (len q) \<longrightarrow> cap q' = cap q)"
proof -
  obtain q1 where g: "Grow slack (int (length vs)) q = Some q1" and v1: "valid q1"
    and l1: "len q1 = len q" and e1: "elems q1 = elems q"
    and room: "int (length vs) \<le> int (cap q1) - int (len q1)"
    and same: "int (length vs) \<le> int (cap q) - int (len q) \<longrightarrow> q1 = q"
    using Grow_ok [OF v, of slack "int (length vs)"] by blast
  define c l h k a where "c = cap q1" and "l = len q1" and "h = head q1" and "k = length vs"
    and "a = arr q1"
  define e where "e = (if c \<le> h + l then h + l - c else h + l)"
  have la: "length a = c" by (simp add: a_def c_def cap_def)
  have lc: "l + k \<le> c" using room v1 by (simp add: valid_def c_def l_def k_def)
  have hc: "h < c \<or> (h = 0 \<and> c = 0)" using v1 by (simp add: valid_def c_def h_def)
  have ei: "nat (wrapAdd q1 (int (head q1)) (int (len q1))) = e"
    by (simp add: endIdx_phys phys_eq e_def c_def l_def h_def)
  have ec: "e \<le> c" using hc lc by (auto simp: e_def)
  have old: "j < l \<Longrightarrow> elems q ! j = a ! (if c \<le> h + j then h + j - c else h + j)" for j
    unfolding e1[symmetric] by (simp add: elems_def phys_eq c_def l_def h_def a_def)
  have fin: "\<exists>q'. PushBack slack vs q = Some q' \<and> valid q' \<and> elems q' = elems q @ vs \<and>
           (int (length vs) \<le> int (cap q) - int (len q) \<longrightarrow> cap q' = cap q)"
    if pb: "PushBack slack vs q = Some (q1\<lparr>arr := a', len := l + k\<rparr>)"
      and la': "length a' = c"
      and slot: "\<And>s. s < c \<Longrightarrow> a' ! s =
             (if c \<le> h + l then (if e \<le> s \<and> s < e + k then vs ! (s - e) else a ! s)
              else if h + l \<le> s then (if s < h + l + k then vs ! (s - (h + l)) else a ! s)
              else if s + c < h + l + k then vs ! (s + c - (h + l)) else a ! s)"
    for a'
  proof -
    let ?q' = "q1\<lparr>arr := a', len := l + k\<rparr>"
    have "valid ?q'" using lc hc by (simp add: valid_def cap_def la' h_def)
    moreover have "elems ?q' = elems q @ vs"
    proof (rule elems_eqI)
      show "len ?q' = length (elems q @ vs)" by (simp add: l_def l1 k_def)
      fix i assume "i < length (elems q @ vs)"
      then have i: "i < l + k" by (simp add: l_def l1 k_def)
      then have hc': "h < c" using lc hc by linarith
      define s where "s = (if c \<le> h + i then h + i - c else h + i)"
      have p: "phys ?q' i = s" by (simp add: phys_eq cap_def la' s_def h_def)
      have sc: "s < c" using i lc hc' by (auto simp: s_def)
      show "arr ?q' ! phys ?q' i = (elems q @ vs) ! i"
      proof (cases "i < l")
        case True
        have "a' ! s = a ! s"
          using slot [OF sc] True lc hc' by (auto simp: s_def e_def split: if_splits)
        then show ?thesis using old [of i] True
          by (simp add: p nth_append l_def[symmetric] l1[symmetric] s_def)
      next
        case False
        define j where "j = i - l"
        have j: "j < k" "i = l + j" using False i by (simp_all add: j_def)
        have "a' ! s = vs ! j"
          using slot [OF sc] j lc hc' by (auto simp: s_def e_def split: if_splits)
        also have "\<dots> = (elems q @ vs) ! i"
          using j by (simp add: nth_append l_def l1)
        finally show ?thesis by (simp add: p)
      qed
    qed
    ultimately show ?thesis using pb same by (auto simp: cap_def la' c_def)
  qed
  have rs: "reslice (q1\<lparr>arr := a'\<rparr>) (len q1 + length vs) = Some (q1\<lparr>arr := a', len := l + k\<rparr>)"
    if "length a' = c" for a'
    using lc that by (simp add: reslice_def cap_def l_def k_def)
  show ?thesis
  proof (cases "k \<le> c - e")
    case True
    have ekc: "e + k \<le> c" using True ec by linarith
    obtain a2 where a2: "go_copy a e (e + k) vs = Some a2"
      using go_copy_SomeI [of e "e + k" a vs] ekc by (auto simp: la)
    have la2: "length a2 = c" using go_copy_length [OF a2] la by simp
    have pb: "PushBack slack vs q = Some (q1\<lparr>arr := a2, len := l + k\<rparr>)"
      using g True a2 rs [OF la2]
      by (simp add: PushBack_def Let_def ei cap_def k_def[symmetric] a_def[symmetric] la
          c_def[symmetric, unfolded cap_def])
    show ?thesis
    proof (rule fin [OF pb la2])
      fix s assume "s < c"
      then show "a2 ! s =
             (if c \<le> h + l then (if e \<le> s \<and> s < e + k then vs ! (s - e) else a ! s)
              else if h + l \<le> s then (if s < h + l + k then vs ! (s - (h + l)) else a ! s)
              else if s + c < h + l + k then vs ! (s + c - (h + l)) else a ! s)"
        using go_copy_nth_exact [OF a2, of s] True lc
        by (auto simp: la k_def[symmetric] e_def split: if_splits)
    qed
  next
    case False
    then have nw: "h + l < c" "e = h + l" using lc hc by (auto simp: e_def split: if_splits)
    define hl where "hl = c - e"
    have hl: "hl < k" "hl + h + l = c" "k - hl \<le> h" using False nw lc by (simp_all add: hl_def)
    have s1: "subslice vs 0 hl = Some (take hl vs)"
      using subslice_SomeI [of 0 hl vs] hl by (simp add: k_def)
    have s2: "subslice vs hl (length vs) = Some (take (k - hl) (drop hl vs))"
      using subslice_SomeI [of hl "length vs" vs] hl by (simp add: k_def)
    obtain a2 where a2: "go_copy a e c (take hl vs) = Some a2"
      using go_copy_SomeI [of e c a] ec by (auto simp: la)
    have la2: "length a2 = c" using go_copy_length [OF a2] la by simp
    have khc: "k - hl \<le> c" using lc by linarith
    obtain a3 where a3: "go_copy a2 0 (k - hl) (take (k - hl) (drop hl vs)) = Some a3"
      using go_copy_SomeI [of 0 "k - hl" a2] khc by (auto simp: la2)
    have la3: "length a3 = c" using go_copy_length [OF a3] la2 by simp
    have nk: "\<not> length vs \<le> c - e" using False by (simp add: k_def)
    have pb: "PushBack slack vs q = Some (q1\<lparr>arr := a3, len := l + k\<rparr>)"
      using g nk s1 s2 a2 a3 rs [OF la3]
      by (simp add: PushBack_def Let_def ei cap_def k_def[symmetric] a_def[symmetric] la
          c_def[symmetric, unfolded cap_def] hl_def[symmetric])
    show ?thesis
    proof (rule fin [OF pb la3])
      fix s assume "s < c"
      then show "a3 ! s =
             (if c \<le> h + l then (if e \<le> s \<and> s < e + k then vs ! (s - e) else a ! s)
              else if h + l \<le> s then (if s < h + l + k then vs ! (s - (h + l)) else a ! s)
              else if s + c < h + l + k then vs ! (s + c - (h + l)) else a ! s)"
        using go_copy_nth_exact [OF a3, of s] go_copy_nth_exact [OF a2, of s] hl nw lc
        by (auto simp: la la2 k_def[symmetric] ac_simps split: if_splits)
    qed
  qed
qed

lemma PopFront_spec:
  assumes v: "valid q" and ne: "0 < len q"
  shows "\<exists>q'. PopFront q = Some ((hd (elems q), True), q') \<and> valid q' \<and>
           elems q' = tl (elems q) \<and> cap q' = cap q \<and> len q' = len q - 1"
proof -
  have hc: "head q < cap q" and lc: "len q \<le> cap q" using v ne by (auto simp: valid_def)
  define h' where "h' = (if cap q \<le> head q + 1 then head q + 1 - cap q else head q + 1)"
  have nh: "nat (toPhysicalIdx q 1) = h'"
    using phys_eq [of q 1] by (simp add: phys_def h'_def)
  let ?q' = "q\<lparr>head := h', len := len q - 1\<rparr>"
  have pf: "PopFront q = Some ((arr q ! head q, True), ?q')"
    using ne hc lc by (simp add: PopFront_def Let_def nh reslice_def index_def cap_def)
  have h0: "hd (elems q) = arr q ! head q"
    using ne hc by (simp add: elems_def hd_map upt_conv_Cons phys_eq)
  have "valid ?q'" using hc lc ne by (auto simp: valid_def cap_def h'_def)
  moreover have "elems ?q' = tl (elems q)"
  proof (rule elems_eqI)
    show "len ?q' = length (tl (elems q))" by simp
    fix i assume "i < length (tl (elems q))"
    then have i: "i + 1 < len q" by simp
    have "phys ?q' i = phys q (i + 1)"
      using hc lc i by (auto simp: phys_eq cap_def h'_def)
    then show "arr ?q' ! phys ?q' i = tl (elems q) ! i"
      using i by (simp add: nth_tl elems_def)
  qed
  ultimately show ?thesis using pf h0 by (simp add: cap_def)
qed

lemma PopBack_spec:
  assumes v: "valid q" and ne: "0 < len q"
  shows "\<exists>q'. PopBack q = Some ((last (elems q), True), q') \<and> valid q' \<and>
           elems q' = butlast (elems q) \<and> cap q' = cap q \<and> len q' = len q - 1"
proof -
  have hc: "head q < cap q" and lc: "len q \<le> cap q" using v ne by (auto simp: valid_def)
  define m where "m = len q - 1"
  have lm: "len q = Suc m" using ne by (simp add: m_def)
  let ?q' = "q\<lparr>len := m\<rparr>"
  have ph: "toPhysicalIdx ?q' (int m) = int (phys q m)"
    by (simp add: toPhysicalIdx_phys phys_eq cap_def)
  have pl: "phys q m < cap q" using phys_less [OF v, of m] lm by simp
  have rs: "reslice q (len q - 1) = Some ?q'"
    using lc by (simp add: reslice_def m_def)
  have ix: "index (arr ?q') (toPhysicalIdx ?q' (int (len ?q'))) = Some (arr q ! phys q m)"
    using pl by (simp add: ph index_def cap_def)
  have pb: "PopBack q = Some ((arr q ! phys q m, True), ?q')"
    using ne rs ix by (simp add: PopBack_def)
  have ln: "elems q \<noteq> []" using ne by (auto simp: elems_def)
  have l0: "last (elems q) = arr q ! phys q m"
    by (simp add: elems_def lm)
  have "valid ?q'" using hc lc lm by (simp add: valid_def cap_def)
  moreover have "elems ?q' = butlast (elems q)"
  proof (rule elems_eqI)
    show "len ?q' = length (butlast (elems q))" by (simp add: m_def)
    fix i assume "i < length (butlast (elems q))"
    then have i: "i < m" by (simp add: m_def)
    have "phys ?q' i = phys q i" by (simp add: phys_eq cap_def)
    then show "arr ?q' ! phys ?q' i = butlast (elems q) ! i"
      using i lm by (simp add: nth_butlast elems_def)
  qed
  ultimately show ?thesis using pb l0 by (simp add: cap_def m_def)
qed

lemma DQ_PopFront_eq: "DQ_PopFront q = PopFront q"
  by (simp add: DQ_PopFront_def PopFront_def)

lemma DQ_PopBack_eq: "DQ_PopBack q = PopBack q"
  by (simp add: DQ_PopBack_def PopBack_def DQ_Get_def)

lemma DQ_PushFront_eq: "valid q \<Longrightarrow> DQ_PushFront slack vs q = PushFront slack vs q"
  by (simp add: DQ_PushFront_def PushFront_def DQ_Grow_eq valid_def)

lemma go_copy_nothing: "go_copy a 0 0 [] = Some a"
  by (simp add: go_copy_def)

lemma DQ_PushBack_eq:
  assumes v: "valid q"
  shows "DQ_PushBack slack vs q = PushBack slack vs q"
proof -
  obtain q1 where g: "Grow slack (int (length vs)) q = Some q1" and v1: "valid q1"
    and room: "int (length vs) \<le> int (cap q1) - int (len q1)"
    using Grow_ok [OF v, of slack "int (length vs)"] by blast
  have dg: "DQ_Grow slack (int (length vs)) q = Some q1"
    using v g by (simp add: DQ_Grow_eq valid_def)
  define e where "e = nat (wrapAdd q1 (int (head q1)) (int (len q1)))"
  have ec: "e \<le> cap q1"
    using v1 phys_eq [of q1 "len q1"] by (auto simp: e_def endIdx_phys valid_def split: if_splits)
  show ?thesis
  proof (cases "length vs = cap q1 - e")
    case True
    then have k: "e + length vs = cap q1" using ec by linarith
    obtain a2 where a2: "go_copy (arr q1) e (cap q1) vs = Some a2"
      using go_copy_SomeI [of e "cap q1" "arr q1" vs] ec by (auto simp: cap_def)
    have "DQ_PushBack slack vs q = reslice (q1\<lparr>arr := a2\<rparr>) (len q1 + length vs)"
      using dg a2 True
      by (simp add: DQ_PushBack_def Let_def e_def[symmetric] subslice_def go_copy_nothing)
    moreover have "PushBack slack vs q = reslice (q1\<lparr>arr := a2\<rparr>) (len q1 + length vs)"
      using g a2 True k
      by (simp add: PushBack_def Let_def e_def[symmetric])
    ultimately show ?thesis by simp
  next
    case False
    then have "length vs < cap q1 - e \<longleftrightarrow> length vs \<le> cap q1 - e" by linarith
    then show ?thesis
      using g dg by (simp add: DQ_PushBack_def PushBack_def Let_def e_def[symmetric])
  qed
qed

section \<open>Iterators and draining\<close>

lemma index_phys:
  assumes "head q < cap q" and "i < cap q"
  shows "index (arr q) (toPhysicalIdx q (int i)) = Some (arr q ! phys q i)"
proof -
  have "phys q i < cap q" using assms by (auto simp: phys_eq)
  then show ?thesis by (simp add: toPhysicalIdx_phys index_def cap_def)
qed

lemma collect_all_apply:
  "(case collect_all v s of (continue, s') \<Rightarrow> f continue s') = f True (s @ [v])"
  by (simp add: collect_all_def)

lemma collect_first_apply:
  "(case collect_first k v s of (continue, s') \<Rightarrow> f continue s') = f (\<not> k \<le> length s + 1) (s @ [v])"
  by (simp add: collect_first_def)

lemma upt_step: "[i..<i + Suc r] = i # [i + 1..<i + 1 + r]"
  by (simp add: upt_conv_Cons)

lemma PopAll_loop_collect_all:
  assumes "head q < cap q \<or> cap q = 0" and "i + r \<le> cap q"
  shows "PopAll_loop q i r collect_all s = Some (s @ map (\<lambda>j. arr q ! phys q j) [i..<i + r])"
  using assms(2)
proof (induction r arbitrary: i s)
  case 0
  then show ?case by simp
next
  case (Suc r)
  then have "head q < cap q" "i < cap q" using assms(1) by auto
  then have ix: "index (arr q) (toPhysicalIdx q (int i)) = Some (arr q ! phys q i)"
    by (rule index_phys)
  have step: "PopAll_loop q i (Suc r) collect_all s
                = PopAll_loop q (i + 1) r collect_all (s @ [arr q ! phys q i])"
    by (simp add: ix collect_all_apply)
  have "PopAll_loop q (i + 1) r collect_all (s @ [arr q ! phys q i])
          = Some ((s @ [arr q ! phys q i]) @ map (\<lambda>j. arr q ! phys q j) [i + 1..<i + 1 + r])"
    using Suc.prems by (intro Suc.IH) simp
  then show ?case
    unfolding step upt_step by simp
qed

lemma PopAll_loop_collect_first:
  assumes "head q < cap q \<or> cap q = 0" and "i + r \<le> cap q" and "length s < k"
  shows "PopAll_loop q i r (collect_first k) s
           = Some (s @ take (k - length s) (map (\<lambda>j. arr q ! phys q j) [i..<i + r]))"
  using assms(2,3)
proof (induction r arbitrary: i s)
  case 0
  then show ?case by simp
next
  case (Suc r)
  then have "head q < cap q" "i < cap q" using assms(1) by auto
  then have ix: "index (arr q) (toPhysicalIdx q (int i)) = Some (arr q ! phys q i)"
    by (rule index_phys)
  have step: "PopAll_loop q i (Suc r) (collect_first k) s
                = (if k \<le> length s + 1 then Some (s @ [arr q ! phys q i])
                   else PopAll_loop q (i + 1) r (collect_first k) (s @ [arr q ! phys q i]))"
    by (simp add: ix collect_first_apply)
  show ?case
  proof (cases "k \<le> length s + 1")
    case True
    then have "k - length s = Suc 0" using Suc.prems by linarith
    then show ?thesis using True
      unfolding step upt_step by simp
  next
    case False
    then have "PopAll_loop q (i + 1) r (collect_first k) (s @ [arr q ! phys q i])
          = Some ((s @ [arr q ! phys q i])
                  @ take (k - length (s @ [arr q ! phys q i]))
                      (map (\<lambda>j. arr q ! phys q j) [i + 1..<i + 1 + r]))"
      using Suc.prems by (intro Suc.IH) simp_all
    moreover have "k - length s = Suc (k - length s - 1)" using False by linarith
    ultimately show ?thesis using False
      unfolding step upt_step by (simp add: take_Cons')
  qed
qed

lemma PopAll_spec:
  assumes "valid q"
  shows "PopAll q = Some (q\<lparr>len := 0\<rparr>, len q)"
    and "PopAll_seq (q\<lparr>len := 0\<rparr>) (len q) collect_all [] = Some (elems q)"
    and "0 < k \<Longrightarrow> PopAll_seq (q\<lparr>len := 0\<rparr>) (len q) (collect_first k) [] = Some (take k (elems q))"
proof -
  let ?q0 = "q\<lparr>len := 0\<rparr>"
  have a: "head ?q0 < cap ?q0 \<or> cap ?q0 = 0" "0 + len q \<le> cap ?q0"
    using assms by (auto simp: valid_def cap_def)
  have e: "map (\<lambda>j. arr ?q0 ! phys ?q0 j) [0..<0 + len q] = elems q"
    by (simp add: elems_def phys_eq cap_def)
  show "PopAll q = Some (?q0, len q)" by (simp add: PopAll_def reslice_def)
  show "PopAll_seq ?q0 (len q) collect_all [] = Some (elems q)"
    unfolding PopAll_seq_def using PopAll_loop_collect_all [OF a, of "[]"] e by simp
  show "PopAll_seq ?q0 (len q) (collect_first k) [] = Some (take k (elems q))" if "0 < k"
    unfolding PopAll_seq_def using PopAll_loop_collect_first [OF a, of "[]" k] e that by simp
qed

lemma DQ_PopFront_times_spec:
  assumes "valid q" and "k \<le> len q"
  shows "\<exists>q'. DQ_PopFront_times k q = Some q' \<and> valid q' \<and> elems q' = drop k (elems q)
           \<and> cap q' = cap q \<and> len q' = len q - k"
  using assms
proof (induction k arbitrary: q)
  case 0
  then show ?case by simp
next
  case (Suc k)
  then obtain q1 where q1: "PopFront q = Some ((hd (elems q), True), q1)" "valid q1"
      "elems q1 = tl (elems q)" "cap q1 = cap q" "len q1 = len q - 1"
    using PopFront_spec [of q] by auto
  with Suc.prems have "k \<le> len q1" by simp
  from Suc.IH [OF q1(2) this] q1 show ?case
    by (auto simp: DQ_PopFront_eq drop_Suc)
qed

lemma DQ_PopAll_collect_all:
  assumes "valid q"
  shows "\<exists>q'. DQ_PopAll_seq q collect_all s = Some (q', s @ elems q) \<and> valid q' \<and> len q' = 0"
  using assms
proof (induction "len q" arbitrary: q s)
  case 0
  then have "elems q = []" by (simp add: elems_def)
  with 0 show ?case
    by (subst DQ_PopAll_seq.simps) (simp add: DQ_PopFront_def)
next
  case (Suc n)
  then have ne: "0 < len q" by simp
  then obtain q1 where q1: "PopFront q = Some ((hd (elems q), True), q1)" "valid q1"
      "elems q1 = tl (elems q)" "len q1 = len q - 1"
    using PopFront_spec [of q] Suc.prems by auto
  have "n = len q1" using Suc.hyps(2) q1(4) by simp
  from Suc.hyps(1) [OF this q1(2), of "s @ [hd (elems q)]"]
  obtain q' where q': "DQ_PopAll_seq q1 collect_all (s @ [hd (elems q)])
       = Some (q', (s @ [hd (elems q)]) @ elems q1)" "valid q'" "len q' = 0" by blast
  have "elems q \<noteq> []" using ne by (auto simp: elems_def)
  then have "[hd (elems q)] @ elems q1 = elems q" by (simp add: q1(3))
  then have "(s @ [hd (elems q)]) @ elems q1 = s @ elems q" by simp
  with q' q1(1) show ?case
    by (subst DQ_PopAll_seq.simps) (simp add: DQ_PopFront_eq collect_all_apply)
qed

lemma DQ_PopAll_collect_first:
  assumes "valid q" and "length s < k" and "k - length s \<le> len q"
  shows "\<exists>q'. DQ_PopAll_seq q (collect_first k) s = Some (q', s @ take (k - length s) (elems q))
           \<and> DQ_PopFront_times (k - length s) q = Some q'"
  using assms
proof (induction "k - length s" arbitrary: q s)
  case 0
  then show ?case by simp
next
  case (Suc m)
  then have ne: "0 < len q" by simp
  then obtain q1 where q1: "PopFront q = Some ((hd (elems q), True), q1)" "valid q1"
      "elems q1 = tl (elems q)" "len q1 = len q - 1"
    using PopFront_spec [of q] Suc.prems by auto
  have en: "elems q \<noteq> []" using ne by (auto simp: elems_def)
  have km: "k - length s = Suc m" using Suc.hyps(2) by simp
  show ?case
  proof (cases "m = 0")
    case True
    then have "k \<le> length s + 1" using km by linarith
    moreover have "take (Suc 0) (elems q) = [hd (elems q)]" using en by (cases "elems q") simp_all
    ultimately show ?thesis using q1(1) km True
      by (subst DQ_PopAll_seq.simps) (simp add: DQ_PopFront_eq collect_first_apply)
  next
    case False
    let ?s = "s @ [hd (elems q)]"
    have a: "m = k - length ?s" "length ?s < k" "k - length ?s \<le> len q1"
      using km False Suc.prems q1(4) by simp_all
    from Suc.hyps(1) [OF a(1) q1(2) a(2,3)]
    obtain q' where q': "DQ_PopAll_seq q1 (collect_first k) ?s
        = Some (q', ?s @ take (k - length ?s) (elems q1))"
      "DQ_PopFront_times (k - length ?s) q1 = Some q'" by blast
    have "?s @ take m (elems q1) = s @ take (Suc m) (elems q)"
      using en by (cases "elems q") (simp_all add: q1(3))
    moreover have "\<not> k \<le> length s + 1" using km False by linarith
    ultimately show ?thesis using q' q1(1) km a(1)
      by (subst DQ_PopAll_seq.simps) (simp add: DQ_PopFront_eq collect_first_apply)
  qed
qed

section \<open>Growth\<close>

text \<open>
  Claim C1. For a well-formed deque and \<open>n\<close> larger than the free capacity, \<^verbatim>\<open>Grow(n)\<close>
  returns without a panic, the free capacity afterwards is at least \<open>n\<close>, and the length and
  the sequence \<^verbatim>\<open>At(0), ..., At(Len()-1)\<close> are what they were; \<^verbatim>\<open>DQ.Grow\<close> computes the
  same deque. The proof (lemma \<open>Grow_spec\<close>) goes through the three relocation cases; the
  witness has one deque for each of them.
\<close>

theorem Grow_makes_room:
  assumes "valid q" and "Cap q - Len q < n"
  shows "\<exists>q'. Grow slack n q = Some q' \<and> DQ_Grow slack n q = Some q' \<and> valid q' \<and>
           n \<le> Cap q' - Len q' \<and> Len q' = Len q \<and>
           contents q' = contents q \<and> DQ_contents q' = DQ_contents q"
proof -
  from assms obtain q' where q': "Grow slack n q = Some q'" "valid q'" "len q' = len q"
      "n \<le> int (cap q') - int (len q')" "elems q' = elems q"
    using Grow_spec [of q n slack] by (auto simp: Cap_def Len_def)
  have "DQ_Grow slack n q = Some q'"
    using assms(1) q'(1) by (simp add: DQ_Grow_eq valid_def)
  moreover have "contents q' = contents q"
    using assms(1) q'(2,5) by (simp add: contents_elems)
  ultimately show ?thesis using q' by (auto simp: Cap_def Len_def DQ_contents_eq)
qed

theorem Grow_makes_room_witness:
  "(\<exists>q'. Grow doubling 1 (From [1, 2, 3 :: int]) = Some q' \<and>
         DQ_Grow doubling 1 (From [1, 2, 3]) = Some q' \<and> valid q' \<and>
         1 \<le> Cap q' - Len q' \<and> Len q' = 3 \<and>
         contents q' = [Some 1, Some 2, Some 3] \<and> DQ_contents q' = [Some 1, Some 2, Some 3]) \<and>
   (\<exists>q'. Grow doubling 1 \<lparr>head = 1, arr = [4, 1, 2, 3 :: int], len = 4\<rparr> = Some q' \<and>
         DQ_Grow doubling 1 \<lparr>head = 1, arr = [4, 1, 2, 3], len = 4\<rparr> = Some q' \<and> valid q' \<and>
         1 \<le> Cap q' - Len q' \<and> Len q' = 4 \<and>
         contents q' = [Some 1, Some 2, Some 3, Some 4] \<and>
         DQ_contents q' = [Some 1, Some 2, Some 3, Some 4]) \<and>
   (\<exists>q'. Grow doubling 1 \<lparr>head = 3, arr = [2, 3, 4, 1 :: int], len = 4\<rparr> = Some q' \<and>
         DQ_Grow doubling 1 \<lparr>head = 3, arr = [2, 3, 4, 1], len = 4\<rparr> = Some q' \<and> valid q' \<and>
         1 \<le> Cap q' - Len q' \<and> Len q' = 4 \<and>
         contents q' = [Some 1, Some 2, Some 3, Some 4] \<and>
         DQ_contents q' = [Some 1, Some 2, Some 3, Some 4])"
proof -
  have a: "valid (From [1, 2, 3 :: int])" "Cap (From [1, 2, 3 :: int]) - Len (From [1, 2, 3 :: int]) < 1"
    by (simp_all add: valid_def deque_eval)
  have b: "valid \<lparr>head = 1, arr = [4, 1, 2, 3 :: int], len = 4\<rparr>"
    "Cap \<lparr>head = 1, arr = [4, 1, 2, 3 :: int], len = 4\<rparr> - Len \<lparr>head = 1, arr = [4, 1, 2, 3 :: int], len = 4\<rparr> < 1"
    by (simp_all add: valid_def deque_eval)
  have c: "valid \<lparr>head = 3, arr = [2, 3, 4, 1 :: int], len = 4\<rparr>"
    "Cap \<lparr>head = 3, arr = [2, 3, 4, 1 :: int], len = 4\<rparr> - Len \<lparr>head = 3, arr = [2, 3, 4, 1 :: int], len = 4\<rparr> < 1"
    by (simp_all add: valid_def deque_eval)
  have ca: "contents (From [1, 2, 3 :: int]) = [Some 1, Some 2, Some 3]"
    and la: "Len (From [1, 2, 3 :: int]) = 3"
    and cb: "contents \<lparr>head = 1, arr = [4, 1, 2, 3 :: int], len = 4\<rparr> = [Some 1, Some 2, Some 3, Some 4]"
    and lb: "Len \<lparr>head = 1, arr = [4, 1, 2, 3 :: int], len = 4\<rparr> = 4"
    and cc: "contents \<lparr>head = 3, arr = [2, 3, 4, 1 :: int], len = 4\<rparr> = [Some 1, Some 2, Some 3, Some 4]"
    and lc: "Len \<lparr>head = 3, arr = [2, 3, 4, 1 :: int], len = 4\<rparr> = 4"
    by (simp_all add: deque_eval upt_rec)
  show ?thesis
    using Grow_makes_room [OF a, of doubling, unfolded ca la DQ_contents_eq]
      Grow_makes_room [OF b, of doubling, unfolded cb lb DQ_contents_eq]
      Grow_makes_room [OF c, of doubling, unfolded cc lc DQ_contents_eq]
    unfolding DQ_contents_eq by (intro conjI)
qed

text \<open>
  Claim C9. When the free capacity is at least \<open>n\<close>, \<^verbatim>\<open>Grow(n)\<close> returns the deque as
  it is. With capacity 3 and contents 1, 2, 3, two \<^verbatim>\<open>PopFront\<close> and then
  \<^verbatim>\<open>PushFront(4, 5)\<close> leave the capacity at 3 and the contents 4, 5, 3, whatever the
  allocation policy.
\<close>

theorem Grow_with_room_is_noop:
  "(n \<le> Cap q - Len q \<longrightarrow> Grow slack n q = Some q) \<and>
   do { (_, q) \<leftarrow> PopFront (From [1, 2, 3 :: int]);
        (_, q) \<leftarrow> PopFront q;
        q \<leftarrow> PushFront slack [4, 5] q;
        Some (Cap q, contents q) } = Some (3, [Some 4, Some 5, Some 3])"
  by (simp add: deque_eval upt_rec)

theorem Grow_with_room_is_noop_witness:
  "Grow exact_fit 2 \<lparr>head = 2, arr = [1, 2, 3 :: int], len = 1\<rparr>
     = Some \<lparr>head = 2, arr = [1, 2, 3], len = 1\<rparr> \<and>
   do { (_, q) \<leftarrow> PopFront (From [1, 2, 3 :: int]);
        (_, q) \<leftarrow> PopFront q;
        q \<leftarrow> PushFront exact_fit [4, 5] q;
        Some (Cap q, contents q) } = Some (3, [Some 4, Some 5, Some 3])"
  using Grow_with_room_is_noop [of 2 "\<lparr>head = 2, arr = [1, 2, 3 :: int], len = 1\<rparr>" exact_fit]
  by (simp add: Cap_def Len_def cap_def)

text \<open>
  Claim C2 fails when the head segment is the longer one and the capacity added is
  smaller than the tail segment: \<^verbatim>\<open>Grow\<close> then moves the head segment. With capacity
  and length 10, head 3 and one slot added, it moves 7 elements, where the smaller
  segment has 3 and half the length is 5. The same happens with the runtime's rule for
  large slices: capacity and length 40000, head 19000, 21000 elements moved.
\<close>

theorem Grow_relocates_larger_segment_counterexample:
  "Grow_counted exact_fit 1 \<lparr>head = 3, arr = [8, 9, 10, 1, 2, 3, 4, 5, 6, 7 :: int], len = 10\<rparr>
     = Some (\<lparr>head = 4, arr = [8, 9, 10, 1, 1, 2, 3, 4, 5, 6, 7], len = 10\<rparr>, 7) \<and>
   min (10 - 3) (10 - (10 - 3)) = (3 :: nat) \<and> \<not> (7 :: nat) \<le> 10 div 2 \<and>
   map_option snd
     (Grow_counted quarter_growth 1 \<lparr>head = 19000, arr = replicate 40000 (0 :: int), len = 40000\<rparr>)
     = Some 21000 \<and>
   min (40000 - 19000) (40000 - (40000 - 19000)) = (19000 :: nat) \<and>
   \<not> (21000 :: nat) \<le> 40000 div 2"
  by (simp add: Grow_counted_def deque_eval quarter_growth_def)

text \<open>
  Claim C2 as amended. In a call to \<^verbatim>\<open>Grow\<close> that reallocates a well-formed deque, no
  element is moved when the occupied region does not wrap. When it wraps, the tail
  segment is moved if it is shorter than the head segment and fits in the capacity
  added, and the head segment otherwise. So the number moved is the smaller of the two
  segments, at most half the length, whenever the head segment is not the longer one or
  the tail segment fits in the capacity added; it is always less than the length.
\<close>

theorem Grow_relocation_count:
  assumes "valid q" and "Cap q - Len q < n"
  shows "\<exists>q' k. Grow_counted slack n q = Some (q', k) \<and> Grow slack n q = Some q' \<and>
           (head q \<le> cap q - len q \<longrightarrow> k = 0) \<and>
           (cap q - len q < head q \<longrightarrow>
              (let headLen = cap q - head q; tailLen = len q - headLen in
                 k = (if tailLen < headLen \<and> tailLen \<le> cap q' - cap q then tailLen else headLen) \<and>
                 (headLen \<le> tailLen \<or> tailLen \<le> cap q' - cap q \<longrightarrow>
                    k = min headLen tailLen \<and> k \<le> len q div 2) \<and>
                 k < len q))"
proof -
  from assms obtain q' where
    q': "Grow_counted slack n q =
           Some (q', if head q \<le> cap q - len q then 0
                     else if cap q - head q > len q - (cap q - head q)
                             \<and> cap q' - cap q \<ge> len q - (cap q - head q)
                          then len q - (cap q - head q)
                     else cap q - head q)"
    using Grow_counted_cases [of q n slack] by (auto simp: Cap_def Len_def)
  have g: "Grow slack n q = Some q'"
    using Grow_counted_fst [of slack n q] q' by simp
  have "len q \<le> cap q" "head q < cap q \<or> head q = 0 \<and> cap q = 0"
    using assms(1) by (auto simp: valid_def)
  then show ?thesis
    using q' g by (auto simp: Let_def min_def)
qed

theorem Grow_relocation_count_witness:
  "valid \<lparr>head = 1, arr = [4, 1, 2, 3 :: int], len = 4\<rparr> \<and>
   Cap \<lparr>head = 1, arr = [4, 1, 2, 3 :: int], len = 4\<rparr>
     - Len \<lparr>head = 1, arr = [4, 1, 2, 3 :: int], len = 4\<rparr> < 1 \<and>
   Grow_counted doubling 1 \<lparr>head = 1, arr = [4, 1, 2, 3 :: int], len = 4\<rparr>
     = Some (\<lparr>head = 1, arr = [4, 1, 2, 3, 4, 0, 0, 0], len = 4\<rparr>, 1) \<and>
   min (4 - 1) (4 - (4 - 1)) = (1 :: nat)"
  using Grow_relocation_count [of "\<lparr>head = 1, arr = [4, 1, 2, 3 :: int], len = 4\<rparr>" 1 doubling]
  by (simp add: Grow_counted_def deque_eval valid_def)

section \<open>Pushing and draining\<close>

text \<open>
  Claim C4. On a well-formed deque with logical contents \<open>M\<close>, \<^verbatim>\<open>PushFront(fs...)\<close>, then
  \<^verbatim>\<open>PushBack(bs...)\<close>, then a loop over \<^verbatim>\<open>PopAll()\<close> that collects every element: no call
  panics, the elements collected are \<open>fs\<close>, then \<open>M\<close>, then \<open>bs\<close>, each in its order, and the
  deque is empty afterwards.
\<close>

theorem push_front_back_drain:
  assumes "valid q"
  shows "do { q \<leftarrow> PushFront slack fs q;
              q \<leftarrow> PushBack slack bs q;
              (q, n) \<leftarrow> PopAll q;
              got \<leftarrow> PopAll_seq q n collect_all [];
              Some (map Some got, Len q) }
         = Some (map Some fs @ contents q @ map Some bs, 0)"
proof -
  obtain q1 where q1: "PushFront slack fs q = Some q1" "valid q1" "elems q1 = fs @ elems q"
    using PushFront_spec [OF assms, of slack fs] by blast
  obtain q2 where q2: "PushBack slack bs q1 = Some q2" "valid q2" "elems q2 = elems q1 @ bs"
    using PushBack_spec [OF q1(2), of slack bs] by blast
  show ?thesis
    using q1 q2 PopAll_spec(1,2) [OF q2(2)] assms
    by (simp add: contents_elems Len_def)
qed

theorem push_front_back_drain_witness:
  "valid (From [1, 2, 3 :: int]) \<and>
   do { q \<leftarrow> PushFront doubling [4, 5] (From [1, 2, 3 :: int]);
        q \<leftarrow> PushBack doubling [6, 7] q;
        (q, n) \<leftarrow> PopAll q;
        got \<leftarrow> PopAll_seq q n collect_all [];
        Some (map Some got, Len q) }
     = Some ([Some 4, Some 5, Some 1, Some 2, Some 3, Some 6, Some 7], 0)"
proof -
  have v: "valid (From [1, 2, 3 :: int])" by (simp add: valid_def deque_eval)
  have c: "contents (From [1, 2, 3 :: int]) = [Some 1, Some 2, Some 3]"
    by (simp add: deque_eval upt_rec)
  show ?thesis
    using push_front_back_drain [OF v, of doubling "[4, 5]" "[6, 7]"] v by (simp add: c)
qed

text \<open>
  Claim C3 fails for \<^verbatim>\<open>Deque.PopAll\<close>, which empties the deque when it is called, before
  the first element is consumed: on 1, 2, 3, a consumer that stops after one element
  leaves an empty deque, where one \<^verbatim>\<open>PopFront\<close> leaves 2, 3.
\<close>

theorem PopAll_eager_counterexample:
  "PopAll (From [1, 2, 3 :: int]) = Some (\<lparr>head = 0, arr = [1, 2, 3], len = 0\<rparr>, 3) \<and>
   PopAll_seq \<lparr>head = 0, arr = [1, 2, 3 :: int], len = 0\<rparr> 3 (collect_first 1) [] = Some [1] \<and>
   Len \<lparr>head = 0, arr = [1, 2, 3 :: int], len = 0\<rparr> = 0 \<and>
   contents \<lparr>head = 0, arr = [1, 2, 3 :: int], len = 0\<rparr> = [] \<and>
   PopFront (From [1, 2, 3 :: int]) = Some ((1, True), \<lparr>head = 1, arr = [1, 2, 3], len = 2\<rparr>) \<and>
   Len \<lparr>head = 1, arr = [1, 2, 3 :: int], len = 2\<rparr> = 2 \<and>
   contents \<lparr>head = 1, arr = [1, 2, 3 :: int], len = 2\<rparr> = [Some 2, Some 3]"
  by (simp add: PopAll_def PopAll_seq_def collect_first_def deque_eval upt_rec numeral_3_eq_3)

text \<open>
  Claim C3 as amended. On a well-formed deque: the sequence of \<^verbatim>\<open>DQ.PopAll\<close> pops one
  element from the front per step, so a consumer that takes \<open>k\<close> elements
  (\<open>1 \<le> k \<le> Len()\<close>) and leaves the loop gets the first \<open>k\<close> elements and leaves the
  deque that \<open>k\<close> calls of \<^verbatim>\<open>PopFront\<close> leave, holding the other \<open>Len() - k\<close> elements in
  order; consumed fully, it yields all elements front to back and leaves the deque empty.
  \<^verbatim>\<open>Deque.PopAll\<close> empties the deque in the call itself; its sequence yields all elements
  front to back when consumed fully, and the first \<open>k\<close> to a consumer that stops after
  \<open>k\<close>, and the deque is empty in either case.
\<close>

theorem PopAll_lazy_and_eager:
  assumes "valid q"
  shows "(1 \<le> k \<and> k \<le> len q \<longrightarrow>
            (\<exists>q' got. DQ_PopAll_seq q (collect_first k) [] = Some (q', got) \<and>
               map Some got = take k (DQ_contents q) \<and>
               DQ_PopFront_times k q = Some q' \<and>
               DQ_contents q' = drop k (DQ_contents q) \<and> Len q' = Len q - int k)) \<and>
         (\<exists>q' got. DQ_PopAll_seq q collect_all [] = Some (q', got) \<and>
               map Some got = DQ_contents q \<and> Len q' = 0) \<and>
         (\<exists>q0 got. PopAll q = Some (q0, len q) \<and> Len q0 = 0 \<and> contents q0 = [] \<and>
               PopAll_seq q0 (len q) collect_all [] = Some got \<and> map Some got = contents q) \<and>
         (1 \<le> k \<longrightarrow>
            (\<exists>q0 got. PopAll q = Some (q0, len q) \<and> Len q0 = 0 \<and>
               PopAll_seq q0 (len q) (collect_first k) [] = Some got \<and>
               map Some got = take k (contents q)))"
proof (intro conjI impI)
  assume k: "1 \<le> k \<and> k \<le> len q"
  then obtain q' where q': "DQ_PopAll_seq q (collect_first k) [] = Some (q', take k (elems q))"
      "DQ_PopFront_times k q = Some q'"
    using DQ_PopAll_collect_first [OF assms, of "[]" k] by auto
  obtain q'' where q'': "DQ_PopFront_times k q = Some q''" "valid q''"
      "elems q'' = drop k (elems q)" "len q'' = len q - k"
    using DQ_PopFront_times_spec [OF assms, of k] k by blast
  with q' have "q'' = q'" by simp
  with q' q'' k assms
  show "\<exists>q' got. DQ_PopAll_seq q (collect_first k) [] = Some (q', got) \<and>
               map Some got = take k (DQ_contents q) \<and>
               DQ_PopFront_times k q = Some q' \<and>
               DQ_contents q' = drop k (DQ_contents q) \<and> Len q' = Len q - int k"
    by (auto simp: DQ_contents_eq contents_elems take_map drop_map Len_def)
next
  show "\<exists>q' got. DQ_PopAll_seq q collect_all [] = Some (q', got) \<and>
               map Some got = DQ_contents q \<and> Len q' = 0"
    using DQ_PopAll_collect_all [OF assms, of "[]"] assms
    by (auto simp: DQ_contents_eq contents_elems Len_def)
next
  show "\<exists>q0 got. PopAll q = Some (q0, len q) \<and> Len q0 = 0 \<and> contents q0 = [] \<and>
               PopAll_seq q0 (len q) collect_all [] = Some got \<and> map Some got = contents q"
    using PopAll_spec(1,2) [OF assms] assms
    by (simp add: contents_elems Len_def) (simp add: contents_def)
next
  assume "1 \<le> k"
  then show "\<exists>q0 got. PopAll q = Some (q0, len q) \<and> Len q0 = 0 \<and>
               PopAll_seq q0 (len q) (collect_first k) [] = Some got \<and>
               map Some got = take k (contents q)"
    using PopAll_spec(1) [OF assms] PopAll_spec(3) [OF assms, of k] assms
    by (simp add: contents_elems Len_def take_map)
qed

theorem PopAll_lazy_and_eager_witness:
  "valid (From [1, 2, 3 :: int]) \<and>
   DQ_PopAll_seq (From [1, 2, 3 :: int]) (collect_first 2) []
     = Some (\<lparr>head = 2, arr = [1, 2, 3], len = 1\<rparr>, [1, 2]) \<and>
   DQ_PopFront_times 2 (From [1, 2, 3 :: int]) = Some \<lparr>head = 2, arr = [1, 2, 3], len = 1\<rparr> \<and>
   DQ_contents \<lparr>head = 2, arr = [1, 2, 3 :: int], len = 1\<rparr> = [Some 3] \<and>
   DQ_PopAll_seq (From [1, 2, 3 :: int]) collect_all []
     = Some (\<lparr>head = 0, arr = [1, 2, 3], len = 0\<rparr>, [1, 2, 3]) \<and>
   PopAll (From [1, 2, 3 :: int]) = Some (\<lparr>head = 0, arr = [1, 2, 3], len = 0\<rparr>, 3) \<and>
   PopAll_seq \<lparr>head = 0, arr = [1, 2, 3 :: int], len = 0\<rparr> 3 collect_all [] = Some [1, 2, 3] \<and>
   PopAll_seq \<lparr>head = 0, arr = [1, 2, 3 :: int], len = 0\<rparr> 3 (collect_first 2) [] = Some [1, 2]"
  using PopAll_lazy_and_eager [of "From [1, 2, 3 :: int]" 2]
  by (simp add: valid_def DQ_PopAll_seq.simps DQ_PopFront_def DQ_contents_def DQ_Get_def
      PopAll_def PopAll_seq_def collect_first_def collect_all_def deque_eval upt_rec
      numeral_2_eq_2 numeral_3_eq_3)

section \<open>Indexed access\<close>

text \<open>
  Claim C5 fails for \<^verbatim>\<open>DQ.Get\<close>, which has no range check: after two \<^verbatim>\<open>PopBack\<close> on
  7, 8, 9 the length is 1, and \<^verbatim>\<open>Get(2)\<close> and \<^verbatim>\<open>Get(3)\<close> return 9 and 7.
\<close>

theorem Get_out_of_range_counterexample:
  "DQ_PopBack (From [7, 8, 9 :: int]) = Some ((9, True), \<lparr>head = 0, arr = [7, 8, 9], len = 2\<rparr>) \<and>
   DQ_PopBack \<lparr>head = 0, arr = [7, 8, 9 :: int], len = 2\<rparr>
     = Some ((8, True), \<lparr>head = 0, arr = [7, 8, 9], len = 1\<rparr>) \<and>
   Len \<lparr>head = 0, arr = [7, 8, 9 :: int], len = 1\<rparr> = 1 \<and>
   DQ_Get \<lparr>head = 0, arr = [7, 8, 9 :: int], len = 1\<rparr> 2 = Some 9 \<and>
   DQ_Get \<lparr>head = 0, arr = [7, 8, 9 :: int], len = 1\<rparr> 3 = Some 7"
  by (simp add: deque_eval DQ_PopBack_def DQ_Get_def)

text \<open>
  Claim C5 as amended. \<^verbatim>\<open>At(i)\<close> panics for every \<open>i < 0\<close> and every \<open>i \<ge> Len()\<close>.
  For a well-formed deque and \<open>0 \<le> i < Len()\<close>, \<^verbatim>\<open>At(i)\<close> returns the element in slot
  \<open>(head + i) mod cap\<close> and \<^verbatim>\<open>Get(i)\<close> returns the same. \<^verbatim>\<open>Get\<close> is unchecked: on a
  well-formed deque it panics exactly when \<open>head + i\<close> is negative or at least twice the
  capacity, and returns the value stored in the slot otherwise.
\<close>

theorem At_checked_Get_unchecked:
  "(i < 0 \<or> Len q \<le> i \<longrightarrow> At q i = None) \<and>
   (valid q \<and> 0 \<le> i \<and> i < Len q \<longrightarrow>
      At q i = Some (arr q ! ((head q + nat i) mod cap q)) \<and> DQ_Get q i = At q i) \<and>
   (valid q \<longrightarrow> (DQ_Get q i = None \<longleftrightarrow> int (head q) + i < 0 \<or> 2 * Cap q \<le> int (head q) + i))"
proof (intro conjI impI)
  assume "i < 0 \<or> Len q \<le> i"
  then show "At q i = None" by (auto simp: At_def Len_def)
next
  assume a: "valid q \<and> 0 \<le> i \<and> i < Len q"
  then have "nat i < len q" "int (nat i) = i" by (auto simp: Len_def)
  then show "At q i = Some (arr q ! ((head q + nat i) mod cap q))"
    using a At_phys [of q "nat i"] phys_mod [of q "nat i"] by simp
next
  assume a: "valid q \<and> 0 \<le> i \<and> i < Len q"
  then show "DQ_Get q i = At q i" by (simp add: DQ_Get_At Len_def)
next
  assume "valid q"
  then show "DQ_Get q i = None \<longleftrightarrow> int (head q) + i < 0 \<or> 2 * Cap q \<le> int (head q) + i"
    by (auto simp: DQ_Get_def index_def toPhysicalIdx_def wrapAdd_def Let_def Cap_def cap_def valid_def)
qed

theorem At_checked_Get_unchecked_witness:
  "At \<lparr>head = 1, arr = [7, 8, 9 :: int], len = 2\<rparr> 5 = None \<and>
   At \<lparr>head = 1, arr = [7, 8, 9 :: int], len = 2\<rparr> (- 1) = None \<and>
   At \<lparr>head = 1, arr = [7, 8, 9 :: int], len = 2\<rparr> 1 = Some 9 \<and>
   DQ_Get \<lparr>head = 1, arr = [7, 8, 9 :: int], len = 2\<rparr> 1 = Some 9 \<and>
   DQ_Get \<lparr>head = 1, arr = [7, 8, 9 :: int], len = 2\<rparr> 5 = None"
  using At_checked_Get_unchecked [of 5 "\<lparr>head = 1, arr = [7, 8, 9 :: int], len = 2\<rparr>"]
    At_checked_Get_unchecked [of "- 1" "\<lparr>head = 1, arr = [7, 8, 9 :: int], len = 2\<rparr>"]
    At_checked_Get_unchecked [of 1 "\<lparr>head = 1, arr = [7, 8, 9 :: int], len = 2\<rparr>"]
  by (simp add: valid_def Len_def Cap_def cap_def)

section \<open>Popping from an empty container\<close>

text \<open>
  Claim C6. On an empty deque \<^verbatim>\<open>PopFront\<close> and \<^verbatim>\<open>PopBack\<close> return the zero value and
  \<^verbatim>\<open>false\<close> without a panic, and the deque is unchanged. On an empty heap \<^verbatim>\<open>Pop\<close>
  returns the zero value and \<^verbatim>\<open>false\<close> and the heap is unchanged, so a second \<^verbatim>\<open>Pop\<close>
  does the same and a following \<^verbatim>\<open>Push\<close> behaves as on the heap before the pops.
\<close>

theorem pop_empty_no_value:
  "(Len q = 0 \<longrightarrow>
      PopFront q = Some ((0, False), q) \<and> PopBack q = Some ((0, False), q) \<and>
      DQ_PopFront q = Some ((0, False), q) \<and> DQ_PopBack q = Some ((0, False), q)) \<and>
   (heap_Len h = 0 \<longrightarrow>
      Pop h = ((0, False), h) \<and> Pop (snd (Pop h)) = ((0, False), h) \<and>
      Push (snd (Pop (snd (Pop h)))) x = Push h x)"
  by (simp add: Len_def heap_Len_def PopFront_def PopBack_def DQ_PopFront_def DQ_PopBack_def Pop_def)

theorem pop_empty_no_value_witness:
  "PopFront (new_deque :: int deque) = Some ((0, False), new_deque) \<and>
   PopBack (new_deque :: int deque) = Some ((0, False), new_deque) \<and>
   DQ_PopFront (new_deque :: int deque) = Some ((0, False), new_deque) \<and>
   DQ_PopBack (new_deque :: int deque) = Some ((0, False), new_deque) \<and>
   Pop (New cmp_int) = ((0, False), New cmp_int) \<and>
   Pop (snd (Pop (New cmp_int))) = ((0, False), New cmp_int) \<and>
   buf (Push (snd (Pop (snd (Pop (New cmp_int))))) 5) = [5]"
proof -
  have "Len (new_deque :: int deque) = 0" "heap_Len (New cmp_int) = 0"
    by (simp_all add: Len_def new_deque_def heap_Len_def New_def)
  moreover have "buf (Push (New cmp_int) 5) = [5]"
    by (simp add: heap_eval)
  ultimately show ?thesis
    using pop_empty_no_value [of "new_deque :: int deque" "New cmp_int" 5] by simp
qed

section \<open>The two implementations agree\<close>

lemma Deque_step_spec:
  assumes "valid q"
  shows "\<exists>r q'. Deque_step slack x q = Some (r, q') \<and> valid q' \<and>
           (case x of
              OpPushBack vs \<Rightarrow> r = None \<and> elems q' = elems q @ vs
            | OpPushFront vs \<Rightarrow> r = None \<and> elems q' = vs @ elems q
            | OpPopFront \<Rightarrow> if len q = 0 then r = Some (0, False) \<and> q' = q
                            else r = Some (hd (elems q), True) \<and> elems q' = tl (elems q)
            | OpPopBack \<Rightarrow> if len q = 0 then r = Some (0, False) \<and> q' = q
                           else r = Some (last (elems q), True) \<and> elems q' = butlast (elems q))"
proof (cases x)
  case (OpPushBack vs)
  then show ?thesis using PushBack_spec [OF assms, of slack vs] by auto
next
  case (OpPushFront vs)
  then show ?thesis using PushFront_spec [OF assms, of slack vs] by auto
next
  case OpPopFront
  show ?thesis
  proof (cases "len q = 0")
    case True
    then show ?thesis using OpPopFront assms by (simp add: PopFront_def)
  next
    case False
    then show ?thesis using OpPopFront PopFront_spec [OF assms] by auto
  qed
next
  case OpPopBack
  show ?thesis
  proof (cases "len q = 0")
    case True
    then show ?thesis using OpPopBack assms by (simp add: PopBack_def)
  next
    case False
    then show ?thesis using OpPopBack PopBack_spec [OF assms] by auto
  qed
qed

lemma DQ_step_eq: "valid q \<Longrightarrow> DQ_step slack x q = Deque_step slack x q"
  by (cases x) (simp_all add: DQ_PushBack_eq DQ_PushFront_eq DQ_PopFront_eq DQ_PopBack_eq)

lemma step_simulation:
  assumes "valid q1" and "valid q2" and "elems q1 = elems q2"
  shows "\<exists>r d1 d2. DQ_step slack1 x q1 = Some (r, d1) \<and> Deque_step slack2 x q2 = Some (r, d2) \<and>
           valid d1 \<and> valid d2 \<and> elems d1 = elems d2"
proof -
  have l: "len q1 = len q2" using assms(3) length_elems [of q1] length_elems [of q2] by simp
  obtain r1 d1 where s1: "Deque_step slack1 x q1 = Some (r1, d1)" "valid d1"
    and c1: "case x of
              OpPushBack vs \<Rightarrow> r1 = None \<and> elems d1 = elems q1 @ vs
            | OpPushFront vs \<Rightarrow> r1 = None \<and> elems d1 = vs @ elems q1
            | OpPopFront \<Rightarrow> if len q1 = 0 then r1 = Some (0, False) \<and> d1 = q1
                            else r1 = Some (hd (elems q1), True) \<and> elems d1 = tl (elems q1)
            | OpPopBack \<Rightarrow> if len q1 = 0 then r1 = Some (0, False) \<and> d1 = q1
                           else r1 = Some (last (elems q1), True) \<and> elems d1 = butlast (elems q1)"
    using Deque_step_spec [OF assms(1), of slack1 x] by blast
  obtain r2 d2 where s2: "Deque_step slack2 x q2 = Some (r2, d2)" "valid d2"
    and c2: "case x of
              OpPushBack vs \<Rightarrow> r2 = None \<and> elems d2 = elems q2 @ vs
            | OpPushFront vs \<Rightarrow> r2 = None \<and> elems d2 = vs @ elems q2
            | OpPopFront \<Rightarrow> if len q2 = 0 then r2 = Some (0, False) \<and> d2 = q2
                            else r2 = Some (hd (elems q2), True) \<and> elems d2 = tl (elems q2)
            | OpPopBack \<Rightarrow> if len q2 = 0 then r2 = Some (0, False) \<and> d2 = q2
                           else r2 = Some (last (elems q2), True) \<and> elems d2 = butlast (elems q2)"
    using Deque_step_spec [OF assms(2), of slack2 x] by blast
  have "r1 = r2 \<and> elems d1 = elems d2"
    using c1 c2 l assms(3) by (cases x) (auto split: if_splits)
  then show ?thesis using s1 s2 assms(1) by (simp add: DQ_step_eq)
qed

lemma run_simulation:
  assumes "valid q1" and "valid q2" and "elems q1 = elems q2"
  shows "\<exists>rs d1 d2. DQ_run slack1 xs q1 = Some (rs, d1) \<and> Deque_run slack2 xs q2 = Some (rs, d2) \<and>
           valid d1 \<and> valid d2 \<and> elems d1 = elems d2"
  using assms
proof (induction xs arbitrary: q1 q2)
  case Nil
  then show ?case by simp
next
  case (Cons x xs)
  obtain r m1 m2 where s: "DQ_step slack1 x q1 = Some (r, m1)" "Deque_step slack2 x q2 = Some (r, m2)"
      "valid m1" "valid m2" "elems m1 = elems m2"
    using step_simulation [OF Cons.prems, of slack1 x slack2] by blast
  obtain rs d1 d2 where t: "DQ_run slack1 xs m1 = Some (rs, d1)" "Deque_run slack2 xs m2 = Some (rs, d2)"
      "valid d1" "valid d2" "elems d1 = elems d2"
    using Cons.IH [OF s(3,4,5)] by blast
  show ?case using s t by simp
qed

lemmas DQ_eval = DQ_PopFront_def DQ_PopBack_def DQ_PushFront_def DQ_PushBack_def DQ_Grow_def
  DQ_Get_def DQ_contents_def

text \<open>
  Claim C10. Start \<^verbatim>\<open>vecdeque.DQ\<close> and \<^verbatim>\<open>deque.Deque\<close> from well-formed deques with the
  same logical contents (their layouts and their allocation policies may differ) and
  apply the same list of \<^verbatim>\<open>PushBack\<close>, \<^verbatim>\<open>PushFront\<close>, \<^verbatim>\<open>PopFront\<close> and \<^verbatim>\<open>PopBack\<close> calls to
  both: neither panics, every call returns the same result in both, and afterwards the
  lengths are equal and \<^verbatim>\<open>Get(i)\<close> of the one equals \<^verbatim>\<open>At(i)\<close> of the other for every
  \<open>i\<close> in range. The witness runs through the exact-fit branch of \<^verbatim>\<open>PushBack\<close>, where the
  two differ in the comparison, and through a growth under two policies.
\<close>

theorem DQ_Deque_equivalent:
  assumes "valid q1" and "valid q2" and "DQ_contents q1 = contents q2"
  shows "\<exists>rs d1 d2. DQ_run slack1 xs q1 = Some (rs, d1) \<and> Deque_run slack2 xs q2 = Some (rs, d2) \<and>
           Len d1 = Len d2 \<and> DQ_contents d1 = contents d2 \<and>
           (\<forall>i. 0 \<le> i \<and> i < Len d1 \<longrightarrow> DQ_Get d1 i = At d2 i \<and> At d2 i \<noteq> None)"
proof -
  have "map Some (elems q1) = map Some (elems q2)"
    using assms by (simp add: DQ_contents_eq contents_elems)
  then have "elems q1 = elems q2" by (simp add: inj_map_eq_map)
  then obtain rs d1 d2 where t: "DQ_run slack1 xs q1 = Some (rs, d1)"
      "Deque_run slack2 xs q2 = Some (rs, d2)" "valid d1" "valid d2" "elems d1 = elems d2"
    using run_simulation [OF assms(1,2), of slack1 xs slack2] by blast
  have l: "len d1 = len d2" using t(5) length_elems [of d1] length_elems [of d2] by simp
  have c: "DQ_contents d1 = contents d2" using t by (simp add: DQ_contents_eq contents_elems)
  have "DQ_Get d1 i = At d2 i \<and> At d2 i \<noteq> None" if "0 \<le> i \<and> i < Len d1" for i
  proof -
    from that have i: "nat i < len d1" "int (nat i) = i" by (auto simp: Len_def)
    have "DQ_Get d1 i = At d1 i" using that by (simp add: DQ_Get_At Len_def)
    also have "\<dots> = Some (elems d1 ! nat i)" using At_phys [OF t(3) i(1)] i by (simp add: elems_def)
    also have "\<dots> = At d2 i" using At_phys [OF t(4), of "nat i"] i l t(5) by (simp add: elems_def)
    finally show ?thesis using At_phys [OF t(4), of "nat i"] i l by simp
  qed
  then show ?thesis using t l c by (auto simp: Len_def)
qed

theorem DQ_Deque_equivalent_witness:
  "valid \<lparr>head = 0, arr = [1, 0, 0 :: int], len = 1\<rparr> \<and>
   valid \<lparr>head = 2, arr = [0, 0, 1 :: int], len = 1\<rparr> \<and>
   DQ_contents \<lparr>head = 0, arr = [1, 0, 0 :: int], len = 1\<rparr>
     = contents \<lparr>head = 2, arr = [0, 0, 1 :: int], len = 1\<rparr> \<and>
   DQ_run exact_fit [OpPushBack [8, 9], OpPopFront, OpPushFront [5, 6], OpPopBack, OpPushBack [7]]
       \<lparr>head = 0, arr = [1, 0, 0 :: int], len = 1\<rparr>
     = Some ([None, Some (1, True), None, Some (9, True), None],
             \<lparr>head = 3, arr = [6, 8, 7, 5], len = 4\<rparr>) \<and>
   Deque_run doubling [OpPushBack [8, 9], OpPopFront, OpPushFront [5, 6], OpPopBack, OpPushBack [7]]
       \<lparr>head = 2, arr = [0, 0, 1 :: int], len = 1\<rparr>
     = Some ([None, Some (1, True), None, Some (9, True), None],
             \<lparr>head = 4, arr = [8, 7, 1, 0, 5, 6], len = 4\<rparr>) \<and>
   DQ_contents \<lparr>head = 3, arr = [6, 8, 7, 5 :: int], len = 4\<rparr> = [Some 5, Some 6, Some 8, Some 7] \<and>
   contents \<lparr>head = 4, arr = [8, 7, 1, 0, 5, 6 :: int], len = 4\<rparr> = [Some 5, Some 6, Some 8, Some 7]"
proof -
  have v: "valid \<lparr>head = 0, arr = [1, 0, 0 :: int], len = 1\<rparr>"
    "valid \<lparr>head = 2, arr = [0, 0, 1 :: int], len = 1\<rparr>"
    by (simp_all add: valid_def cap_def)
  have c: "DQ_contents \<lparr>head = 0, arr = [1, 0, 0 :: int], len = 1\<rparr>
     = contents \<lparr>head = 2, arr = [0, 0, 1 :: int], len = 1\<rparr>"
    by (simp add: DQ_eval deque_eval)
  have r1: "DQ_run exact_fit [OpPushBack [8, 9], OpPopFront, OpPushFront [5, 6], OpPopBack, OpPushBack [7]]
       \<lparr>head = 0, arr = [1, 0, 0 :: int], len = 1\<rparr>
     = Some ([None, Some (1, True), None, Some (9, True), None],
             \<lparr>head = 3, arr = [6, 8, 7, 5], len = 4\<rparr>)"
    by (simp add: DQ_eval deque_eval)
  have r2: "Deque_run doubling [OpPushBack [8, 9], OpPopFront, OpPushFront [5, 6], OpPopBack, OpPushBack [7]]
       \<lparr>head = 2, arr = [0, 0, 1 :: int], len = 1\<rparr>
     = Some ([None, Some (1, True), None, Some (9, True), None],
             \<lparr>head = 4, arr = [8, 7, 1, 0, 5, 6], len = 4\<rparr>)"
    by (simp add: deque_eval)
  have c1: "DQ_contents \<lparr>head = 3, arr = [6, 8, 7, 5 :: int], len = 4\<rparr> = [Some 5, Some 6, Some 8, Some 7]"
    by (simp add: DQ_eval deque_eval upt_rec)
  from DQ_Deque_equivalent [OF v c, of exact_fit
      "[OpPushBack [8, 9], OpPopFront, OpPushFront [5, 6], OpPopBack, OpPushBack [7]]" doubling]
  have "contents \<lparr>head = 4, arr = [8, 7, 1, 0, 5, 6 :: int], len = 4\<rparr> = [Some 5, Some 6, Some 8, Some 7]"
    unfolding r1 r2 using c1 by simp
  then show ?thesis using v c r1 r2 c1 by simp
qed

section \<open>The binary heap\<close>

lemma tp_refl: "total_preorder cmp \<Longrightarrow> 0 \<le> cmp a a"
  unfolding total_preorder_def by (metis linear)

lemma tp_trans: "total_preorder cmp \<Longrightarrow> 0 \<le> cmp a b \<Longrightarrow> 0 \<le> cmp b c \<Longrightarrow> 0 \<le> cmp a c"
  unfolding total_preorder_def by metis

lemma tp_total: "total_preorder cmp \<Longrightarrow> \<not> 0 \<le> cmp a b \<Longrightarrow> 0 \<le> cmp b a"
  unfolding total_preorder_def by (metis linear)

lemma tp_less: "total_preorder cmp \<Longrightarrow> cmp a b < 0 \<Longrightarrow> 0 \<le> cmp b a"
  unfolding total_preorder_def by (metis less_imp_le)

lemma tp_le: "total_preorder cmp \<Longrightarrow> cmp a b \<le> 0 \<Longrightarrow> 0 \<le> cmp b a"
  unfolding total_preorder_def by metis

lemma parent_less: "1 \<le> k \<Longrightarrow> (k - 1) div 2 < (k :: nat)"
  by presburger

lemma up_inv_step:
  assumes tp: "total_preorder cmp" and inv: "up_inv cmp b j x"
    and ij: "(j - 1) div 2 \<noteq> j" and lt: "\<not> 0 \<le> cmp x (b ! ((j - 1) div 2))"
  shows "up_inv cmp (b[j := b ! ((j - 1) div 2)]) ((j - 1) div 2) x"
proof -
  define i where "i = (j - 1) div 2"
  define b' where "b' = b[j := b ! i]"
  have j1: "1 \<le> j" using ij by (cases j) auto
  have ilt: "i < j" using parent_less [OF j1] by (simp add: i_def)
  have jl: "j < length b" using inv by (simp add: up_inv_def)
  have A: "0 \<le> cmp (b ! k) (b ! ((k - 1) div 2))" if "1 \<le> k" "k < length b" "k \<noteq> j" for k
    using inv that by (simp add: up_inv_def)
  have B: "0 \<le> cmp (b ! j) x" using inv by (simp add: up_inv_def)
  have C: "0 \<le> cmp (b ! k) (b ! i)" if "1 \<le> k" "k < length b" "(k - 1) div 2 = j" for k
    using inv that j1 by (simp add: up_inv_def i_def)
  have n: "b' ! k = (if k = j then b ! i else b ! k)" if "k < length b" for k
    using that by (simp add: b'_def nth_list_update)
  have l: "length b' = length b" by (simp add: b'_def)
  have "0 \<le> cmp (b' ! k) (b' ! ((k - 1) div 2))" if k: "1 \<le> k" "k < length b" "k \<noteq> i" for k
  proof -
    have pk: "(k - 1) div 2 < k" using parent_less k by simp
    then have pl: "(k - 1) div 2 < length b" using k by simp
    show ?thesis
    proof (cases "k = j")
      case True
      then show ?thesis using n [of j] n [of i] jl ilt tp_refl [OF tp] by (simp add: i_def)
    next
      case False
      note kj = this
      show ?thesis
      proof (cases "(k - 1) div 2 = j")
        case True
        then show ?thesis using n [of k] n [of j] k kj jl C [of k] by simp
      next
        case False
        then show ?thesis using n [of k] n [of "(k - 1) div 2"] k kj pl A [of k] by simp
      qed
    qed
  qed
  moreover have "0 \<le> cmp (b' ! i) x"
    using n [of i] ilt jl tp_total [OF tp lt] by (simp add: i_def)
  moreover have "0 \<le> cmp (b' ! k) (b' ! ((i - 1) div 2))"
    if k: "1 \<le> k" "k < length b" "(k - 1) div 2 = i" "1 \<le> i" for k
  proof -
    have pi: "(i - 1) div 2 < i" using parent_less k by simp
    have ii: "0 \<le> cmp (b ! i) (b ! ((i - 1) div 2))" using A [of i] k ilt jl by simp
    have pn: "b' ! ((i - 1) div 2) = b ! ((i - 1) div 2)" using n [of "(i - 1) div 2"] pi ilt jl by simp
    show ?thesis
    proof (cases "k = j")
      case True
      then show ?thesis using n [of j] jl ii pn by simp
    next
      case False
      then have "0 \<le> cmp (b ! k) (b ! i)" using A [of k] k by simp
      then have "0 \<le> cmp (b ! k) (b ! ((i - 1) div 2))" using tp_trans [OF tp _ ii] by blast
      then show ?thesis using n [of k] k False pn by simp
    qed
  qed
  ultimately show ?thesis
    using ilt jl unfolding up_inv_def l i_def[symmetric] b'_def[symmetric] by auto
qed

lemma up_inv_exit:
  assumes tp: "total_preorder cmp" and inv: "up_inv cmp b j x"
    and ex: "(j - 1) div 2 = j \<or> 0 \<le> cmp x (b ! ((j - 1) div 2))"
  shows "heap_on cmp (b[j := x])"
  unfolding heap_on_def
proof
  fix k assume "k \<in> {1..<length (b[j := x])}"
  then have k: "1 \<le> k" "k < length b" by simp_all
  have jl: "j < length b" using inv by (simp add: up_inv_def)
  have A: "0 \<le> cmp (b ! k) (b ! ((k - 1) div 2))" if "k \<noteq> j"
    using inv that k by (simp add: up_inv_def)
  have B: "0 \<le> cmp (b ! j) x" using inv by (simp add: up_inv_def)
  have pk: "(k - 1) div 2 < k" using parent_less k by simp
  show "0 \<le> cmp (b[j := x] ! k) (b[j := x] ! ((k - 1) div 2))"
  proof (cases "k = j")
    case True
    then have "(j - 1) div 2 \<noteq> j" using pk by simp
    then show ?thesis using ex True pk jl by (simp add: nth_list_update)
  next
    case False
    show ?thesis
    proof (cases "(k - 1) div 2 = j")
      case True
      then have "0 \<le> cmp (b ! k) (b ! j)" using A [OF False] by simp
      then have "0 \<le> cmp (b ! k) x" using tp_trans [OF tp _ B] by blast
      then show ?thesis using True False k jl by (simp add: nth_list_update)
    next
      case False
      then show ?thesis using A [OF \<open>k \<noteq> j\<close>] \<open>k \<noteq> j\<close> k by (simp add: nth_list_update)
    qed
  qed
qed

lemma mset_move_hole:
  assumes "i < length b" and "j < length b"
  shows "mset (b[j := b ! i, i := x]) = mset (b[j := x])"
proof (cases "i = j")
  case True
  then show ?thesis by simp
next
  case False
  have "mset ((b[j := x])[j := (b[j := x]) ! i, i := (b[j := x]) ! j]) = mset (b[j := x])"
    using assms by (intro mset_swap) simp_all
  then show ?thesis using False assms by (simp add: nth_list_update)
qed

lemma up_loop_spec:
  assumes "total_preorder (compare h)" and "up_inv (compare h) (buf h) j x"
    and "up_loop h x j = (h', j')"
  shows "compare h' = compare h \<and> length (buf h') = length (buf h) \<and>
         heap_on (compare h) ((buf h')[j' := x]) \<and>
         mset ((buf h')[j' := x]) = mset ((buf h)[j := x])"
  using assms
proof (induction h x j arbitrary: h' j' rule: up_loop.induct)
  case (1 h x j)
  define i where "i = (j - 1) div 2"
  have jl: "j < length (buf h)" using "1.prems"(2) by (simp add: up_inv_def)
  show ?case
  proof (cases "i = j \<or> 0 \<le> compare h x (buf h ! i)")
    case True
    then have "up_loop h x j = (h, j)"
      by (subst up_loop.simps) (simp add: i_def Let_def)
    with "1.prems" True show ?thesis
      using up_inv_exit [of "compare h" "buf h" j x] by (auto simp: i_def)
  next
    case False
    let ?h1 = "h\<lparr>buf := (buf h)[j := buf h ! i]\<rparr>"
    have st: "up_loop h x j = up_loop ?h1 x i"
      using False by (subst up_loop.simps) (simp add: i_def Let_def)
    have inv1: "up_inv (compare ?h1) (buf ?h1) i x"
      using up_inv_step [OF "1.prems"(1,2)] False by (simp add: i_def)
    have j1: "1 \<le> j" using False by (cases j) (auto simp: i_def)
    have il: "i < length (buf h)" using parent_less [OF j1] jl by (simp add: i_def)
    have IH: "compare h' = compare ?h1 \<and> length (buf h') = length (buf ?h1) \<and>
         heap_on (compare ?h1) ((buf h')[j' := x]) \<and>
         mset ((buf h')[j' := x]) = mset ((buf ?h1)[i := x])"
      using "1.IH" [OF i_def _ _ inv1] False "1.prems"(1,3) st by simp
    then show ?thesis using mset_move_hole [OF il jl, of x] by simp
  qed
qed

lemma heap_on_snoc_up_inv:
  assumes "total_preorder cmp" and "heap_on cmp b"
  shows "up_inv cmp (b @ [x]) (length b) x"
  unfolding up_inv_def
proof (intro conjI ballI impI)
  show "length b < length (b @ [x])" by simp
  show "0 \<le> cmp ((b @ [x]) ! length b) x" using tp_refl [OF assms(1)] by simp
next
  fix k assume k: "k \<in> {1..<length (b @ [x])}" "k \<noteq> length b"
  then have kl: "1 \<le> k" "k < length b" by simp_all
  then have "(k - 1) div 2 < length b" using parent_less [of k] by simp
  then show "0 \<le> cmp ((b @ [x]) ! k) ((b @ [x]) ! ((k - 1) div 2))"
    using assms(2) kl by (simp add: heap_on_def nth_append)
next
  fix k assume k: "k \<in> {1..<length (b @ [x])}" "(k - 1) div 2 = length b \<and> 1 \<le> length b"
  then have "1 \<le> k" "k \<le> length b" by simp_all
  then have "(k - 1) div 2 < length b" using parent_less [of k] by simp
  with k show "0 \<le> cmp ((b @ [x]) ! k) ((b @ [x]) ! ((length b - 1) div 2))" by simp
qed

lemma Push_spec:
  assumes "total_preorder (compare h)" and "heap_inv h"
  shows "heap_inv (Push h x) \<and> compare (Push h x) = compare h \<and>
         mset (buf (Push h x)) = mset (buf h) + {#x#}"
proof -
  let ?h0 = "h\<lparr>buf := buf h @ [x]\<rparr>"
  let ?n = "length (buf h)"
  obtain h' j' where ul: "up_loop ?h0 x ?n = (h', j')" by (cases "up_loop ?h0 x ?n")
  have inv: "up_inv (compare ?h0) (buf ?h0) ?n x"
    using heap_on_snoc_up_inv [OF assms(1), of "buf h" x] assms(2) by (simp add: heap_inv_def)
  have s: "compare h' = compare ?h0 \<and> length (buf h') = length (buf ?h0) \<and>
         heap_on (compare ?h0) ((buf h')[j' := x]) \<and>
         mset ((buf h')[j' := x]) = mset ((buf ?h0)[?n := x])"
    using up_loop_spec [OF _ inv ul] assms(1) by simp
  have p: "Push h x = h'\<lparr>buf := (buf h')[j' := x]\<rparr>"
    by (simp add: Push_def up_def Let_def ul)
  show ?thesis using s by (simp add: p heap_inv_def)
qed

lemma children: "1 \<le> k \<and> (k - 1) div 2 = i \<longleftrightarrow> k = 2 * i + 1 \<or> k = 2 * i + 2" for k i :: nat
  by presburger

lemma child_choice:
  assumes tp: "total_preorder cmp" and j1: "2 * i + 1 < length b"
    and j: "j = (if 2 * i + 1 + 1 < length b \<and> cmp (b ! (2 * i + 1 + 1)) (b ! (2 * i + 1)) < 0
                 then 2 * i + 1 + 1 else 2 * i + 1)"
  shows "(j - 1) div 2 = i" and "i < j" and "j < length b" and "1 \<le> j"
    and "\<And>k. 1 \<le> k \<Longrightarrow> k < length b \<Longrightarrow> (k - 1) div 2 = i \<Longrightarrow> 0 \<le> cmp (b ! k) (b ! j)"
proof -
  show "(j - 1) div 2 = i" "i < j" "j < length b" "1 \<le> j"
    using j j1 by (auto split: if_splits)
  fix k assume k: "1 \<le> k" "k < length b" "(k - 1) div 2 = i"
  then consider "k = 2 * i + 1" | "k = 2 * i + 2" using children [of k i] by blast
  then show "0 \<le> cmp (b ! k) (b ! j)"
  proof cases
    case 1
    show ?thesis
    proof (cases "2 * i + 1 + 1 < length b \<and> cmp (b ! (2 * i + 1 + 1)) (b ! (2 * i + 1)) < 0")
      case True
      then have "j = 2 * i + 1 + 1" using j by simp
      then show ?thesis using True 1 tp_less [OF tp] by simp
    next
      case False
      then have "j = 2 * i + 1" using j by simp
      then show ?thesis using 1 tp_refl [OF tp] by simp
    qed
  next
    case 2
    show ?thesis
    proof (cases "cmp (b ! (2 * i + 1 + 1)) (b ! (2 * i + 1)) < 0")
      case True
      then have "j = 2 * i + 1 + 1" using j k 2 by simp
      then show ?thesis using 2 tp_refl [OF tp] by simp
    next
      case False
      then have "j = 2 * i + 1" using j by simp
      then show ?thesis using 2 False by simp
    qed
  qed
qed

lemma down_inv_step:
  assumes tp: "total_preorder cmp" and inv: "down_inv cmp b i x"
    and j1: "2 * i + 1 < length b"
    and j: "j = (if 2 * i + 1 + 1 < length b \<and> cmp (b ! (2 * i + 1 + 1)) (b ! (2 * i + 1)) < 0
                 then 2 * i + 1 + 1 else 2 * i + 1)"
    and gt: "\<not> cmp x (b ! j) \<le> 0"
  shows "down_inv cmp (b[i := b ! j]) j x"
proof -
  note cc = child_choice [OF tp j1 j]
  define b' where "b' = b[i := b ! j]"
  have il: "i < length b" and H: "heap_on cmp b" using inv by (simp_all add: down_inv_def)
  have A: "0 \<le> cmp (b ! k) (b ! ((k - 1) div 2))" if "1 \<le> k" "k < length b" for k
    using H that by (simp add: heap_on_def)
  have n: "b' ! k = (if k = i then b ! j else b ! k)" if "k < length b" for k
    using that by (simp add: b'_def nth_list_update)
  have "0 \<le> cmp (b' ! k) (b' ! ((k - 1) div 2))" if k: "1 \<le> k" "k < length b" for k
  proof -
    have pk: "(k - 1) div 2 < k" using parent_less k by simp
    then have pl: "(k - 1) div 2 < length b" using k by simp
    show ?thesis
    proof (cases "k = i")
      case True
      have "0 \<le> cmp (b ! j) (b ! i)" using A [of j] cc by simp
      moreover have "0 \<le> cmp (b ! i) (b ! ((i - 1) div 2))" using A [of i] k True by simp
      ultimately have "0 \<le> cmp (b ! j) (b ! ((i - 1) div 2))" using tp_trans [OF tp] by blast
      then show ?thesis using n [of i] n [of "(i - 1) div 2"] True pk pl il by simp
    next
      case False
      show ?thesis
      proof (cases "(k - 1) div 2 = i")
        case True
        then show ?thesis using n [of k] n [of i] k False il cc(5) [of k] by simp
      next
        case False
        then show ?thesis using n [of k] n [of "(k - 1) div 2"] k \<open>k \<noteq> i\<close> pl A [of k] by simp
      qed
    qed
  qed
  then have "heap_on cmp b'" by (simp add: heap_on_def b'_def)
  moreover have "0 \<le> cmp x (b' ! ((j - 1) div 2))"
    using n [of i] il cc(1) gt by simp
  ultimately show ?thesis using cc(3) by (simp add: down_inv_def b'_def)
qed

lemma down_inv_exit:
  assumes tp: "total_preorder cmp" and inv: "down_inv cmp b i x"
    and j: "j = (if 2 * i + 1 + 1 < length b \<and> cmp (b ! (2 * i + 1 + 1)) (b ! (2 * i + 1)) < 0
                 then 2 * i + 1 + 1 else 2 * i + 1)"
    and ex: "length b \<le> 2 * i + 1 \<or> cmp x (b ! j) \<le> 0"
  shows "heap_on cmp (b[i := x])"
  unfolding heap_on_def
proof
  fix k assume "k \<in> {1..<length (b[i := x])}"
  then have k: "1 \<le> k" "k < length b" by simp_all
  have il: "i < length b" and H: "heap_on cmp b" using inv by (simp_all add: down_inv_def)
  have A: "0 \<le> cmp (b ! k) (b ! ((k - 1) div 2))"
    using H k by (simp add: heap_on_def)
  have pk: "(k - 1) div 2 < k" using parent_less k by simp
  show "0 \<le> cmp (b[i := x] ! k) (b[i := x] ! ((k - 1) div 2))"
  proof (cases "k = i")
    case True
    then show ?thesis using inv k pk il by (simp add: down_inv_def nth_list_update)
  next
    case False
    show ?thesis
    proof (cases "(k - 1) div 2 = i")
      case True
      then have "2 * i + 1 < length b" using k children [of k i] by auto
      note cc = child_choice [OF tp this j]
      have "0 \<le> cmp (b ! j) x" using ex \<open>2 * i + 1 < length b\<close> tp_le [OF tp] by auto
      moreover have "0 \<le> cmp (b ! k) (b ! j)" using cc(5) [of k] k True by simp
      ultimately have "0 \<le> cmp (b ! k) x" using tp_trans [OF tp] by blast
      then show ?thesis using True False k il by (simp add: nth_list_update)
    next
      case False
      then show ?thesis using A \<open>k \<noteq> i\<close> k by (simp add: nth_list_update)
    qed
  qed
qed

lemma down_loop_spec:
  assumes "total_preorder (compare h)" and "down_inv (compare h) (buf h) i x"
    and "down_loop h x i = (h', i')"
  shows "compare h' = compare h \<and> length (buf h') = length (buf h) \<and>
         heap_on (compare h) ((buf h')[i' := x]) \<and>
         mset ((buf h')[i' := x]) = mset ((buf h)[i := x])"
  using assms
proof (induction "length (buf h) - i" arbitrary: h i rule: less_induct)
  case less
  define b where "b = buf h"
  define j where "j = (if 2 * i + 1 + 1 < length b
                          \<and> compare h (b ! (2 * i + 1 + 1)) (b ! (2 * i + 1)) < 0
                       then 2 * i + 1 + 1 else 2 * i + 1)"
  have il: "i < length b" using less.prems(2) by (simp add: down_inv_def b_def)
  show ?case
  proof (cases "length b \<le> 2 * i + 1 \<or> compare h x (b ! j) \<le> 0")
    case True
    then have "down_loop h x i = (h, i)"
      by (subst down_loop.simps) (auto simp: Let_def b_def j_def)
    with less.prems True show ?thesis
      using down_inv_exit [of "compare h" b i x j] by (auto simp: b_def j_def)
  next
    case False
    let ?h1 = "h\<lparr>buf := b[i := b ! j]\<rparr>"
    have st: "down_loop h x i = down_loop ?h1 x j"
      using False by (subst down_loop.simps) (auto simp: Let_def b_def j_def)
    have j1: "2 * i + 1 < length b" using False by simp
    note cc = child_choice [OF less.prems(1) j1 j_def]
    have inv1: "down_inv (compare ?h1) (buf ?h1) j x"
      using down_inv_step [OF less.prems(1) _ j1 j_def] less.prems(2) False by (simp add: b_def)
    have m: "length (buf ?h1) - j < length (buf h) - i"
      using cc(2,3) by (simp add: b_def)
    have tp1: "total_preorder (compare ?h1)" using less.prems(1) by simp
    have dl: "down_loop ?h1 x j = (h', i')" using st less.prems(3) by simp
    have IH: "compare h' = compare ?h1 \<and> length (buf h') = length (buf ?h1) \<and>
         heap_on (compare ?h1) ((buf h')[i' := x]) \<and>
         mset ((buf h')[i' := x]) = mset ((buf ?h1)[j := x])"
      by (rule less.hyps [OF m tp1 inv1 dl])
    then show ?thesis using mset_move_hole [OF cc(3) il, of x] by (simp add: b_def)
  qed
qed

lemma heap_on_take: "heap_on cmp b \<Longrightarrow> heap_on cmp (take m b)"
  unfolding heap_on_def
proof
  fix k assume H: "\<forall>k\<in>{1..<length b}. 0 \<le> cmp (b ! k) (b ! ((k - 1) div 2))"
    and "k \<in> {1..<length (take m b)}"
  then have k: "1 \<le> k" "k < m" "k < length b" by simp_all
  then have "(k - 1) div 2 < m" using parent_less [of k] by simp
  then show "0 \<le> cmp (take m b ! k) (take m b ! ((k - 1) div 2))" using H k by simp
qed

lemma heap_on_root:
  assumes tp: "total_preorder cmp" and H: "heap_on cmp b" and k: "k < length b"
  shows "0 \<le> cmp (b ! k) (b ! 0)"
  using k
proof (induction k rule: less_induct)
  case (less k)
  show ?case
  proof (cases "k = 0")
    case True
    then show ?thesis using tp_refl [OF tp] by simp
  next
    case False
    then have k1: "1 \<le> k" by simp
    have pk: "(k - 1) div 2 < k" using parent_less [OF k1] .
    have "0 \<le> cmp (b ! k) (b ! ((k - 1) div 2))" using H k1 less.prems by (simp add: heap_on_def)
    moreover have "0 \<le> cmp (b ! ((k - 1) div 2)) (b ! 0)" using less.IH [OF pk] pk less.prems by simp
    ultimately show ?thesis using tp_trans [OF tp] by blast
  qed
qed

lemma Pop_spec:
  assumes tp: "total_preorder (compare h)" and H: "heap_inv h" and ne: "buf h \<noteq> []"
  shows "\<exists>h'. Pop h = ((buf h ! 0, True), h') \<and> heap_inv h' \<and> compare h' = compare h \<and>
           mset (buf h') + {#buf h ! 0#} = mset (buf h) \<and>
           length (buf h') = length (buf h) - 1"
proof -
  define b where "b = buf h"
  define b0 where "b0 = take (length b - 1) b"
  define lst where "lst = b ! (length b - 1)"
  have bl: "b = b0 @ [lst]"
    using ne by (simp add: b0_def lst_def b_def take_Suc_conv_app_nth [symmetric])
  have lb0: "length b0 = length b - 1" by (simp add: b0_def)
  show ?thesis
  proof (cases "b0 = []")
    case True
    then have l1: "length b \<le> Suc 0" "length b - Suc 0 = 0" using lb0 by simp_all
    have "Pop h = ((b ! 0, True), h\<lparr>buf := []\<rparr>)"
      using ne l1 by (simp add: Pop_def Let_def b_def[symmetric])
    moreover have "b = [b ! 0]" using bl True by simp
    then have "mset b = {#b ! 0#}" by (metis mset_single_iff_right)
    ultimately show ?thesis using True lb0 by (simp add: heap_inv_def heap_on_def b_def)
  next
    case False
    let ?h0 = "h\<lparr>buf := b0\<rparr>"
    obtain h' i' where dl: "down_loop ?h0 lst 0 = (h', i')" by (cases "down_loop ?h0 lst 0")
    have hb0: "heap_on (compare h) b0"
      unfolding b0_def using H by (intro heap_on_take) (simp add: heap_inv_def b_def)
    have inv: "down_inv (compare ?h0) (buf ?h0) 0 lst"
      using False hb0 by (simp add: down_inv_def)
    have s: "compare h' = compare ?h0 \<and> length (buf h') = length (buf ?h0) \<and>
         heap_on (compare ?h0) ((buf h')[i' := lst]) \<and>
         mset ((buf h')[i' := lst]) = mset ((buf ?h0)[0 := lst])"
      using down_loop_spec [OF _ inv dl] tp by simp
    have t0: "take (length b - Suc 0) b = b0" "b ! (length b - Suc 0) = lst"
      by (simp_all add: b0_def lst_def)
    have p: "Pop h = ((b ! 0, True), h'\<lparr>buf := (buf h')[i' := lst]\<rparr>)"
      using ne False
      by (simp add: Pop_def down_def Let_def b_def[symmetric] t0 dl)
    have b00: "b0 ! 0 = b ! 0" using False bl by (simp add: nth_append)
    have "mset (b0[0 := lst]) + {#b ! 0#} = mset b"
      using False bl by (cases b0) simp_all
    then show ?thesis using s lb0 by (simp add: p heap_inv_def b_def[symmetric])
  qed
qed

lemma heap_step_inv:
  assumes "total_preorder (compare h)" and "heap_inv h"
  shows "heap_inv (heap_step x h) \<and> compare (heap_step x h) = compare h"
proof (cases x)
  case (HPush y)
  then show ?thesis using Push_spec [OF assms, of y] by simp
next
  case HPop
  show ?thesis
  proof (cases "buf h = []")
    case True
    then show ?thesis using HPop assms by (simp add: Pop_def)
  next
    case False
    then show ?thesis using HPop Pop_spec [OF assms] by auto
  qed
qed

lemma heap_run_inv:
  assumes "total_preorder (compare h)" and "heap_inv h"
  shows "heap_inv (heap_run xs h) \<and> compare (heap_run xs h) = compare h"
  using assms
proof (induction xs arbitrary: h)
  case Nil
  then show ?case by simp
next
  case (Cons x xs)
  then show ?case using heap_step_inv [OF Cons.prems, of x] by simp
qed

lemma New_inv: "heap_inv (New cmp)" "compare (New cmp) = cmp" "buf (New cmp) = []"
  by (simp_all add: heap_inv_def heap_on_def New_def)

lemma Push_all_spec:
  assumes "total_preorder (compare h)" and "heap_inv h"
  shows "heap_inv (Push_all xs h) \<and> compare (Push_all xs h) = compare h \<and>
         mset (buf (Push_all xs h)) = mset (buf h) + mset xs"
  using assms
proof (induction xs arbitrary: h)
  case Nil
  then show ?case by simp
next
  case (Cons x xs)
  have p: "heap_inv (Push h x)" "compare (Push h x) = compare h"
    "mset (buf (Push h x)) = mset (buf h) + {#x#}"
    using Push_spec [OF Cons.prems, of x] by simp_all
  then have "total_preorder (compare (Push h x))" using Cons.prems by simp
  from Cons.IH [OF this p(1)] p show ?case by simp
qed

lemma Pop_n_spec:
  assumes "total_preorder (compare h)" and "heap_inv h" and "k \<le> length (buf h)"
  shows "case Pop_n k h of (rs, h') \<Rightarrow>
           map snd rs = replicate k True \<and>
           sorted_wrt (\<lambda>a b. compare h a b \<le> 0) (map fst rs) \<and>
           mset (map fst rs) + mset (buf h') = mset (buf h) \<and>
           length (buf h') = length (buf h) - k"
  using assms
proof (induction k arbitrary: h)
  case 0
  then show ?case by simp
next
  case (Suc k)
  then have ne: "buf h \<noteq> []" by auto
  obtain h1 where h1: "Pop h = ((buf h ! 0, True), h1)" "heap_inv h1" "compare h1 = compare h"
      "mset (buf h1) + {#buf h ! 0#} = mset (buf h)" "length (buf h1) = length (buf h) - 1"
    using Pop_spec [OF Suc.prems(1,2) ne] by blast
  obtain rs h2 where r: "Pop_n k h1 = (rs, h2)" by (cases "Pop_n k h1")
  have tp1: "total_preorder (compare h1)" using Suc.prems(1) h1(3) by simp
  have k1: "k \<le> length (buf h1)" using Suc.prems(3) h1(5) by simp
  have IH: "map snd rs = replicate k True \<and>
           sorted_wrt (\<lambda>a b. compare h a b \<le> 0) (map fst rs) \<and>
           mset (map fst rs) + mset (buf h2) = mset (buf h1) \<and>
           length (buf h2) = length (buf h1) - k"
    using Suc.IH [OF tp1 h1(2) k1] r h1(3) by simp
  have "compare h (buf h ! 0) y \<le> 0" if "y \<in> set (map fst rs)" for y
  proof -
    from that IH have "y \<in># mset (buf h1)" by (metis mset_subset_eq_add_left mset_subset_eqD set_mset_mset)
    then have "y \<in> set (buf h)" using h1(4) by (metis in_multiset_in_set union_iff)
    then obtain i where "i < length (buf h)" "buf h ! i = y" by (auto simp: in_set_conv_nth)
    then have "0 \<le> compare h y (buf h ! 0)"
      using heap_on_root [OF Suc.prems(1), of "buf h" i] Suc.prems(2) by (simp add: heap_inv_def)
    then show ?thesis using Suc.prems(1) by (simp add: total_preorder_def)
  qed
  then show ?case using IH h1 r by (auto simp: ac_simps)
qed

lemma total_preorder_cmp_int: "total_preorder cmp_int"
  by (auto simp: total_preorder_def cmp_int_def)

text \<open>
  Claim C8. With a comparator that is a total order (the contract \<open>total_preorder\<close>
  suffices), every heap reached from the empty heap by any sequence of \<^verbatim>\<open>Push\<close> and \<^verbatim>\<open>Pop\<close>
  calls satisfies the min-heap invariant, and \<^verbatim>\<open>Push\<close> and \<^verbatim>\<open>Pop\<close> each preserve it on any
  heap that satisfies it.
\<close>

theorem heap_invariant_preserved:
  assumes "total_preorder cmp"
  shows "heap_inv (heap_run ops (New cmp)) \<and>
         (compare h = cmp \<and> heap_inv h \<longrightarrow> heap_inv (Push h x) \<and> heap_inv (snd (Pop h)))"
proof
  show "heap_inv (heap_run ops (New cmp))"
    using heap_run_inv [of "New cmp" ops] assms by (simp add: New_inv)
  show "compare h = cmp \<and> heap_inv h \<longrightarrow> heap_inv (Push h x) \<and> heap_inv (snd (Pop h))"
    using heap_step_inv [of h "HPush x"] heap_step_inv [of h HPop] assms by auto
qed

theorem heap_invariant_preserved_witness:
  "total_preorder cmp_int \<and>
   heap_inv (heap_run [HPush 5, HPush 3, HPush 8, HPush 1, HPop, HPush 4, HPush 2, HPop] (New cmp_int)) \<and>
   buf (heap_run [HPush 5, HPush 3, HPush 8, HPush 1, HPop, HPush 4, HPush 2, HPop] (New cmp_int))
     = [3, 4, 8, 5] \<and>
   heap_inv \<lparr>buf = [1, 3, 2, 7, 4], compare = cmp_int\<rparr> \<and>
   heap_inv (Push \<lparr>buf = [1, 3, 2, 7, 4], compare = cmp_int\<rparr> 0) \<and>
   buf (Push \<lparr>buf = [1, 3, 2, 7, 4], compare = cmp_int\<rparr> 0) = [0, 3, 1, 7, 4, 2] \<and>
   heap_inv (snd (Pop \<lparr>buf = [1, 3, 2, 7, 4], compare = cmp_int\<rparr>)) \<and>
   buf (snd (Pop \<lparr>buf = [1, 3, 2, 7, 4], compare = cmp_int\<rparr>)) = [2, 3, 4, 7]"
proof -
  have hi: "heap_inv \<lparr>buf = [1, 3, 2, 7, 4], compare = cmp_int\<rparr>"
    by (simp add: heap_inv_def heap_on_def atLeastLessThan_upt upt_rec cmp_int_def)
  have b1: "buf (heap_run [HPush 5, HPush 3, HPush 8, HPush 1, HPop, HPush 4, HPush 2, HPop] (New cmp_int))
     = [3, 4, 8, 5]"
    by (simp add: heap_eval cmp_int_def)
  have b2: "buf (Push \<lparr>buf = [1, 3, 2, 7, 4], compare = cmp_int\<rparr> 0) = [0, 3, 1, 7, 4, 2]"
    by (simp add: heap_eval cmp_int_def)
  have b3: "buf (snd (Pop \<lparr>buf = [1, 3, 2, 7, 4], compare = cmp_int\<rparr>)) = [2, 3, 4, 7]"
    by (simp add: heap_eval cmp_int_def)
  show ?thesis
    using heap_invariant_preserved [OF total_preorder_cmp_int,
        of "[HPush 5, HPush 3, HPush 8, HPush 1, HPop, HPush 4, HPush 2, HPop]"
           "\<lparr>buf = [1, 3, 2, 7, 4], compare = cmp_int\<rparr>" 0]
      total_preorder_cmp_int hi b1 b2 b3
    by simp
qed

lemma Push_all_Pop_n_spec:
  assumes "total_preorder cmp" and "k \<le> length xs"
  shows "case Pop_n k (Push_all xs (New cmp)) of (rs, h') \<Rightarrow>
           map snd rs = replicate k True \<and>
           sorted_wrt (\<lambda>a b. cmp a b \<le> 0) (map fst rs) \<and>
           mset (map fst rs) \<subseteq># mset xs \<and>
           (k = length xs \<longrightarrow> mset (map fst rs) = mset xs) \<and>
           heap_Len (Push_all xs (New cmp)) = int (length xs) \<and>
           heap_Len h' = int (length xs) - int k"
proof -
  let ?h = "Push_all xs (New cmp)"
  have h: "heap_inv ?h" "compare ?h = cmp" "mset (buf ?h) = mset xs"
    using Push_all_spec [of "New cmp" xs] assms(1) by (simp_all add: New_inv)
  have l: "length (buf ?h) = length xs" using h(3) by (metis size_mset)
  obtain rs h' where r: "Pop_n k ?h = (rs, h')" by (cases "Pop_n k ?h")
  have s: "map snd rs = replicate k True \<and>
           sorted_wrt (\<lambda>a b. cmp a b \<le> 0) (map fst rs) \<and>
           mset (map fst rs) + mset (buf h') = mset xs \<and>
           length (buf h') = length xs - k"
    using Pop_n_spec [of ?h k] assms h l r by simp
  then have sub: "mset (map fst rs) \<subseteq># mset xs" by (metis mset_subset_eq_add_left)
  have "mset (map fst rs) = mset xs" if "k = length xs"
  proof -
    from s that have "buf h' = []" by simp
    with s show ?thesis by simp
  qed
  then show ?thesis using s sub l assms(2) by (simp add: r heap_Len_def)
qed

lemma heap_step_length:
  assumes "total_preorder (compare h)" and "heap_inv h"
  shows "length (buf (heap_step x h)) =
           (case x of HPush y \<Rightarrow> length (buf h) + 1 | HPop \<Rightarrow> length (buf h) - 1)"
proof (cases x)
  case (HPush y)
  have "size (mset (buf (Push h y))) = size (mset (buf h) + {#y#})"
    using Push_spec [OF assms, of y] by simp
  then show ?thesis using HPush by simp
next
  case HPop
  show ?thesis
  proof (cases "buf h = []")
    case True
    then show ?thesis using HPop by (simp add: Pop_def)
  next
    case False
    then show ?thesis using HPop Pop_spec [OF assms] by auto
  qed
qed

lemma heap_run_length:
  assumes "total_preorder (compare h)" and "heap_inv h" and "pops_succeed xs (length (buf h))"
  shows "int (length (buf (heap_run xs h))) = int (length (buf h)) + int (pushes xs) - int (pops xs)"
  using assms
proof (induction xs arbitrary: h)
  case Nil
  then show ?case by simp
next
  case (Cons x xs)
  have s: "heap_inv (heap_step x h)" "compare (heap_step x h) = compare h"
    using heap_step_inv [OF Cons.prems(1,2), of x] by simp_all
  then have tp: "total_preorder (compare (heap_step x h))" using Cons.prems(1) by simp
  show ?case
  proof (cases x)
    case (HPush y)
    then have l: "length (buf (heap_step x h)) = length (buf h) + 1"
      using heap_step_length [OF Cons.prems(1,2), of x] by simp
    then have "pops_succeed xs (length (buf (heap_step x h)))" using Cons.prems(3) HPush by simp
    from Cons.IH [OF tp s(1) this] l HPush show ?thesis by simp
  next
    case HPop
    then have l: "length (buf (heap_step x h)) = length (buf h) - 1"
      using heap_step_length [OF Cons.prems(1,2), of x] by simp
    then have "pops_succeed xs (length (buf (heap_step x h)))" using Cons.prems(3) HPop by simp
    moreover have "0 < length (buf h)" using Cons.prems(3) HPop by simp
    then have "int (length (buf h) - 1) = int (length (buf h)) - 1" by linarith
    ultimately show ?thesis using Cons.IH [OF tp s(1)] l HPop by simp
  qed
qed

text \<open>
  Claim C7. Push the values \<open>xs\<close> on an empty heap (\<open>n\<close> pushes) and then call \<^verbatim>\<open>Pop\<close>
  \<open>k \<le> n\<close> times: every call returns \<^verbatim>\<open>true\<close>, the values returned are in non-decreasing
  order under the comparator and are among the values pushed (all of them when
  \<open>k = n\<close>), \<^verbatim>\<open>Len()\<close> is \<open>n\<close> after the pushes and \<open>n - k\<close> after the pops. The count
  also holds when the calls are interleaved, as long as every \<^verbatim>\<open>Pop\<close> finds the heap
  non-empty.
\<close>

theorem heap_pops_sorted:
  assumes "total_preorder cmp" and "k \<le> length xs"
  shows "(case Pop_n k (Push_all xs (New cmp)) of (rs, h') \<Rightarrow>
           map snd rs = replicate k True \<and>
           sorted_wrt (\<lambda>a b. cmp a b \<le> 0) (map fst rs) \<and>
           mset (map fst rs) \<subseteq># mset xs \<and>
           (k = length xs \<longrightarrow> mset (map fst rs) = mset xs) \<and>
           heap_Len (Push_all xs (New cmp)) = int (length xs) \<and>
           heap_Len h' = int (length xs) - int k) \<and>
         (pops_succeed ops 0 \<longrightarrow>
            heap_Len (heap_run ops (New cmp)) = int (pushes ops) - int (pops ops))"
proof -
  have "heap_Len (heap_run ops (New cmp)) = int (pushes ops) - int (pops ops)"
    if "pops_succeed ops 0"
    using heap_run_length [of "New cmp" ops] assms(1) that by (simp add: New_inv heap_Len_def)
  then show ?thesis using Push_all_Pop_n_spec [OF assms] by blast
qed

theorem heap_pops_sorted_witness:
  "total_preorder cmp_int \<and>
   Pop_n 3 (Push_all [5, 3, 8, 1, 3] (New cmp_int))
     = ([(1, True), (3, True), (3, True)], \<lparr>buf = [5, 8], compare = cmp_int\<rparr>) \<and>
   sorted_wrt (\<lambda>a b. cmp_int a b \<le> 0) [1, 3, 3] \<and>
   mset [1, 3, 3] \<subseteq># mset [5, 3, 8, 1, 3 :: int] \<and>
   heap_Len (Push_all [5, 3, 8, 1, 3] (New cmp_int)) = 5 \<and>
   heap_Len \<lparr>buf = [5, 8], compare = cmp_int\<rparr> = 2 \<and>
   pops_succeed [HPush 5, HPop, HPush 3, HPush (8 :: int), HPop] 0 \<and>
   heap_Len (heap_run [HPush 5, HPop, HPush 3, HPush 8, HPop] (New cmp_int)) = 1"
proof -
  have p: "Pop_n 3 (Push_all [5, 3, 8, 1, 3] (New cmp_int))
     = ([(1, True), (3, True), (3, True)], \<lparr>buf = [5, 8], compare = cmp_int\<rparr>)"
    by (simp add: heap_eval cmp_int_def numeral_3_eq_3)
  have k: "3 \<le> length [5, 3, 8, 1, 3 :: int]" by simp
  have s: "pops_succeed [HPush 5, HPop, HPush 3, HPush (8 :: int), HPop] 0" by simp
  show ?thesis
    using heap_pops_sorted [OF total_preorder_cmp_int k,
        of "[HPush 5, HPop, HPush 3, HPush 8, HPop]"] total_preorder_cmp_int s
    unfolding p by (simp add: heap_Len_def)
qed

end
